theory Spec2Isabelle
  imports Main "HOL-Library.Word" "HOL-Library.Log_Nat" "HOL-Library.Sublist"
begin

section \<open>JavaScript values used by the client\<close>

subsection \<open>Numbers\<close>

text \<open>
  A JavaScript number is an IEEE-754 binary64 value. The finite ones are the rationals
  they denote; the three special values are separate constructors. Negative zero is
  identified with zero: the only divisor in the program is an array length, and the
  running sum of \<open>aggregateResults\<close> starts at \<open>+0\<close>, so the sign of a zero is never
  observed.
\<close>

datatype jsnum = Num rat | PosInfinity | NegInfinity | NaN

definition pow2 :: "int \<Rightarrow> rat" where
  "pow2 e = (if 0 \<le> e then 2 ^ nat e else 1 / 2 ^ nat (- e))"

definition floor_log2 :: "rat \<Rightarrow> int" where
  \<comment> \<open>for \<open>0 < a\<close>: the greatest \<open>e\<close> with \<open>2 ^ e \<le> a\<close>\<close>
  "floor_log2 a =
     (let (p, q) = quotient_of a; e0 = bitlen p - bitlen q
      in if pow2 e0 \<le> a then e0 else e0 - 1)"

definition round_half_even :: "rat \<Rightarrow> int" where
  "round_half_even q =
     (let f = \<lfloor>q\<rfloor>; d = q - of_int f
      in if d < 1 / 2 then f else if 1 / 2 < d then f + 1 else if even f then f else f + 1)"

definition round_double :: "rat \<Rightarrow> jsnum" where
  \<comment> \<open>round to nearest binary64, ties to even, subnormals below \<open>2^-1022\<close>; the result
      is infinite when the rounded magnitude \<open>r\<close> reaches \<open>2^1024\<close>, which is the test on \<open>e\<close> and \<open>n\<close>\<close>
  "round_double x =
     (if x = 0 then Num 0
      else let a = \<bar>x\<bar>;
               e = max (floor_log2 a) (- 1022);
               ulp = pow2 (e - 52);
               n = round_half_even (a / ulp);
               r = of_int n * ulp
           in if 1024 \<le> e \<or> (e = 1023 \<and> 2 ^ 53 \<le> n)
              then (if x < 0 then NegInfinity else PosInfinity)
              else Num (if x < 0 then - r else r))"

fun js_add :: "jsnum \<Rightarrow> jsnum \<Rightarrow> jsnum" where
  "js_add NaN _ = NaN"
| "js_add _ NaN = NaN"
| "js_add PosInfinity NegInfinity = NaN"
| "js_add NegInfinity PosInfinity = NaN"
| "js_add PosInfinity _ = PosInfinity"
| "js_add _ PosInfinity = PosInfinity"
| "js_add NegInfinity _ = NegInfinity"
| "js_add _ NegInfinity = NegInfinity"
| "js_add (Num a) (Num b) = round_double (a + b)"

definition js_sign_inf :: "bool \<Rightarrow> jsnum" where
  "js_sign_inf negative = (if negative then NegInfinity else PosInfinity)"

fun js_is_neg :: "jsnum \<Rightarrow> bool" where
  "js_is_neg (Num a) = (a < 0)"
| "js_is_neg NegInfinity = True"
| "js_is_neg _ = False"

fun js_mul :: "jsnum \<Rightarrow> jsnum \<Rightarrow> jsnum" where
  "js_mul NaN _ = NaN"
| "js_mul _ NaN = NaN"
| "js_mul (Num a) (Num b) = round_double (a * b)"
| "js_mul (Num a) y = (if a = 0 then NaN else js_sign_inf ((a < 0) \<noteq> js_is_neg y))"
| "js_mul x (Num b) = (if b = 0 then NaN else js_sign_inf (js_is_neg x \<noteq> (b < 0)))"
| "js_mul x y = js_sign_inf (js_is_neg x \<noteq> js_is_neg y)"

fun js_div :: "jsnum \<Rightarrow> jsnum \<Rightarrow> jsnum" where
  "js_div NaN _ = NaN"
| "js_div _ NaN = NaN"
| "js_div (Num a) (Num b) =
     (if b = 0 then (if a = 0 then NaN else js_sign_inf (a < 0)) else round_double (a / b))"
| "js_div (Num a) y = Num 0"
| "js_div x (Num b) = js_sign_inf (js_is_neg x \<noteq> (b < 0))"
| "js_div x y = NaN"

definition isNaN :: "jsnum \<Rightarrow> bool" where
  "isNaN x = (x = NaN)"

subsection \<open>Strings of digits\<close>

definition digit_char :: "nat \<Rightarrow> char" where
  "digit_char d = ''0123456789'' ! d"

function String_int :: "int \<Rightarrow> string" where
  \<comment> \<open>the decimal digits of an integer: \<open>String(i)\<close> and \<open>i.toString()\<close> for an integer
      of magnitude below \<open>10^21\<close>\<close>
  "String_int i =
     (if i < 0 then ''-'' @ String_int (- i)
      else if i < 10 then [digit_char (nat i)]
      else String_int (i div 10) @ [digit_char (nat (i mod 10))])"
  by pat_completeness auto
termination
  by (relation "measure (\<lambda>i. if i < 0 then nat (- i) + 1 else nat i)") auto

declare String_int.simps [simp del]

definition padStart :: "nat \<Rightarrow> char \<Rightarrow> string \<Rightarrow> string" where
  "padStart targetLength c s = replicate (targetLength - length s) c @ s"

subsection \<open>Values\<close>

text \<open>
  The values a parsed JSON document and a property read can produce. An object is the
  list of its own properties; a read takes the first entry of a name.
\<close>

datatype jsval =
    JUndefined
  | JNull
  | JBool bool
  | JNum jsnum
  | JStr string
  | JArr "jsval list"
  | JObj "(string \<times> jsval) list"

text \<open>
  Values that are thrown or passed to \<open>reject\<close>: an \<open>Error\<close> instance (it has a
  \<open>message\<close> and no \<open>retryable\<close> property), or the plain object
  \<open>{ code, message, retryable }\<close> built by \<open>queryDevices\<close>.
\<close>

datatype err_code = StatusCode nat | NETWORK_ERROR

datatype js_error = Error string | Rejection err_code string bool

fun message :: "js_error \<Rightarrow> string" where
  "message (Error m) = m"
| "message (Rejection c m r) = m"

fun retryable :: "js_error \<Rightarrow> bool" where
  "retryable (Error m) = False"
| "retryable (Rejection c m r) = r"

fun get_prop :: "jsval \<Rightarrow> string \<Rightarrow> js_error + jsval" where
  \<comment> \<open>\<open>v.name\<close> for a name that no prototype defines (\<open>data\<close>, \<open>status\<close>, \<open>power\<close>)\<close>
  "get_prop (JObj kvs) name = Inr (case map_of kvs name of None \<Rightarrow> JUndefined | Some v \<Rightarrow> v)"
| "get_prop JUndefined name =
     Inl (Error (''Cannot read properties of undefined (reading '' @ [CHR 39] @ name @ [CHR 39] @ '')''))"
| "get_prop JNull name =
     Inl (Error (''Cannot read properties of null (reading '' @ [CHR 39] @ name @ [CHR 39] @ '')''))"
| "get_prop _ name = Inr JUndefined"

fun truthy :: "jsval \<Rightarrow> bool" where
  "truthy JUndefined = False"
| "truthy JNull = False"
| "truthy (JBool b) = b"
| "truthy (JNum x) = (x \<noteq> Num 0 \<and> x \<noteq> NaN)"
| "truthy (JStr s) = (s \<noteq> [])"
| "truthy (JArr xs) = True"
| "truthy (JObj kvs) = True"

subsection \<open>Functions of the runtime\<close>

text \<open>
  Library functions of Node.js that the client calls and whose results it only passes on.
  They are parameters of the model: every theorem holds for all of them.
  \<^item> \<open>md5\<close>: the 16 bytes of \<open>crypto.createHash('md5').update(s).digest()\<close>;
  \<^item> \<open>JSON_parse\<close>: \<open>JSON.parse\<close>, \<open>Inl\<close> the message of the \<open>SyntaxError\<close> it throws;
  \<^item> \<open>parseFloat\<close>: the global \<open>parseFloat\<close>;
  \<^item> \<open>Number_toString\<close>: \<open>Number.prototype.toString\<close>, called by \<open>toFixed\<close> only for
    magnitudes of at least \<open>10^21\<close>;
  \<^item> \<open>toISOString\<close>: \<open>new Date(ms).toISOString()\<close>.
\<close>

record host =
  md5 :: "string \<Rightarrow> 8 word list"
  JSON_parse :: "string \<Rightarrow> string + jsval"
  parseFloat :: "jsval \<Rightarrow> jsnum"
  Number_toString :: "rat \<Rightarrow> string"
  toISOString :: "int \<Rightarrow> string"

definition toFixed :: "host \<Rightarrow> nat \<Rightarrow> jsnum \<Rightarrow> string" where
  \<comment> \<open>\<open>Number.prototype.toFixed(fractionDigits)\<close>\<close>
  "toFixed h fractionDigits x =
     (case x of
        NaN \<Rightarrow> ''NaN''
      | PosInfinity \<Rightarrow> ''Infinity''
      | NegInfinity \<Rightarrow> ''-Infinity''
      | Num r \<Rightarrow>
          (let s = (if r < 0 then ''-'' else '''');
               a = \<bar>r\<bar>
           in if 10 ^ 21 \<le> a then s @ Number_toString h a
              else
                let n = \<lfloor>a * 10 ^ fractionDigits + 1 / 2\<rfloor>;
                    m = String_int n;
                    m' = (if fractionDigits = 0 then m
                          else replicate (fractionDigits + 1 - length m) (CHR ''0'') @ m)
                in if fractionDigits = 0 then s @ m'
                   else s @ take (length m' - fractionDigits) m' @ ''.''
                          @ drop (length m' - fractionDigits) m'))"

section \<open>business/deviceManager.js\<close>

definition BATCH_SIZE :: nat where
  "BATCH_SIZE = 10"

function generateSerialNumbers_loop :: "nat \<Rightarrow> nat \<Rightarrow> string list \<Rightarrow> string list" where
  "generateSerialNumbers_loop count i serialNumbers =
     (if i < count
      then generateSerialNumbers_loop count (i + 1)
             (serialNumbers @ [''SN-'' @ padStart 3 (CHR ''0'') (String_int (int i))])
      else serialNumbers)"
  by pat_completeness auto
termination
  by (relation "measure (\<lambda>(count, i, serialNumbers). count - i)") auto

declare generateSerialNumbers_loop.simps [simp del]

definition generateSerialNumbers :: "nat \<Rightarrow> string list" where
  "generateSerialNumbers count = generateSerialNumbers_loop count 0 []"

definition slice :: "'a list \<Rightarrow> nat \<Rightarrow> nat \<Rightarrow> 'a list" where
  \<comment> \<open>\<open>array.slice(start, end)\<close> for indices that are natural numbers\<close>
  "slice array start end = take (end - start) (drop start array)"

text \<open>
  The loop of \<open>createBatches\<close> advances \<open>i\<close> by \<open>batchSize\<close>; with \<open>batchSize = 0\<close> and
  a non-empty array it never ends, which is the value \<open>None\<close>.
\<close>

partial_function (option) createBatches_loop ::
  "'a list \<Rightarrow> nat \<Rightarrow> nat \<Rightarrow> 'a list list \<Rightarrow> 'a list list option" where
  "createBatches_loop array batchSize i batches =
     (if i < length array
      then createBatches_loop array batchSize (i + batchSize)
             (batches @ [slice array i (i + batchSize)])
      else Some batches)"

declare createBatches_loop.simps [code]

definition createBatches :: "'a list \<Rightarrow> nat \<Rightarrow> 'a list list option" where
  "createBatches array batchSize = createBatches_loop array batchSize 0 []"

record summary =
  totalDevices :: nat
  onlineDevices :: nat
  offlineDevices :: nat
  onlinePercentage :: string
  totalPowerKW :: string
  averagePowerKW :: string
  generatedAt :: string

record report =
  summary :: summary
  devices :: "jsval list"

definition flat :: "jsval list \<Rightarrow> jsval list" where
  \<comment> \<open>\<open>Array.prototype.flat()\<close>, depth 1: an element that is an array is replaced by its elements\<close>
  "flat results = concat (map (\<lambda>v. case v of JArr xs \<Rightarrow> xs | _ \<Rightarrow> [v]) results)"

fun status_is :: "string \<Rightarrow> jsval list \<Rightarrow> js_error + jsval list" where
  \<comment> \<open>\<open>flatResults.filter(d => d.status === s)\<close>; the read of \<open>d.status\<close> throws on null\<close>
  "status_is s [] = Inr []"
| "status_is s (d # ds) =
     (case get_prop d ''status'' of
        Inl e \<Rightarrow> Inl e
      | Inr v \<Rightarrow>
          (case status_is s ds of
             Inl e \<Rightarrow> Inl e
           | Inr keep \<Rightarrow> Inr (if v = JStr s then d # keep else keep)))"

fun totalPower_reduce :: "host \<Rightarrow> jsnum \<Rightarrow> jsval list \<Rightarrow> js_error + jsnum" where
  \<comment> \<open>\<open>flatResults.reduce((sum, device) => ..., 0)\<close>; the accumulator \<open>sum\<close> is \<open>acc\<close> here\<close>
  "totalPower_reduce h acc [] = Inr acc"
| "totalPower_reduce h acc (device # ds) =
     (case get_prop device ''power'' of
        Inl e \<Rightarrow> Inl e
      | Inr p \<Rightarrow>
          (let power = parseFloat h p
           in totalPower_reduce h (js_add acc (if isNaN power then Num 0 else power)) ds))"

definition aggregateResults :: "host \<Rightarrow> int \<Rightarrow> jsval list \<Rightarrow> js_error + report" where
  \<comment> \<open>\<open>now\<close> is the clock read by \<open>new Date()\<close>\<close>
  "aggregateResults h now results =
     (let flatResults = flat results;
          totalDevices = length flatResults
      in case status_is ''Online'' flatResults of
           Inl e \<Rightarrow> Inl e
         | Inr online \<Rightarrow>
        (case status_is ''Offline'' flatResults of
           Inl e \<Rightarrow> Inl e
         | Inr offline \<Rightarrow>
        (case totalPower_reduce h (Num 0) flatResults of
           Inl e \<Rightarrow> Inl e
         | Inr totalPower \<Rightarrow>
             Inr \<lparr> summary = \<lparr>
                     totalDevices = totalDevices,
                     onlineDevices = length online,
                     offlineDevices = length offline,
                     onlinePercentage =
                       toFixed h 2 (js_mul (js_div (Num (of_nat (length online)))
                                                   (Num (of_nat totalDevices))) (Num 100)) @ ''%'',
                     totalPowerKW = toFixed h 2 totalPower @ '' kW'',
                     averagePowerKW =
                       toFixed h 2 (js_div totalPower (Num (of_nat totalDevices))) @ '' kW'',
                     generatedAt = toISOString h now \<rparr>,
                   devices = flatResults \<rparr>)))"

section \<open>api/signature.js\<close>

definition TOKEN :: string where
  "TOKEN = ''interview_token_123''"

definition hex_digit :: "nat \<Rightarrow> char" where
  "hex_digit d = ''0123456789abcdef'' ! d"

definition hex_byte :: "8 word \<Rightarrow> string" where
  "hex_byte b = [hex_digit (unat b div 16), hex_digit (unat b mod 16)]"

definition digest_hex :: "8 word list \<Rightarrow> string" where
  \<comment> \<open>\<open>.digest('hex')\<close>: two lowercase hexadecimal digits for each byte\<close>
  "digest_hex bytes = concat (map hex_byte bytes)"

definition generateSignature :: "host \<Rightarrow> string \<Rightarrow> string \<Rightarrow> string" where
  \<comment> \<open>\<open>timestamp\<close> is the decimal string that \<open>queryDevices\<close> passes\<close>
  "generateSignature h url timestamp =
     (let payload = url @ TOKEN @ timestamp in digest_hex (md5 h payload))"

section \<open>The world outside the client\<close>

text \<open>
  What the network answers to one request: after \<open>latency\<close> milliseconds either a response
  with a status code and a body, or an \<open>error\<close> event of the socket with a message.
\<close>

datatype http_outcome = Response nat string | ConnError string

record reply =
  latency :: nat
  outcome :: http_outcome

text \<open>
  The environment of a run: the reply to the \<open>n\<close>-th request sent, and by how many
  milliseconds the \<open>n\<close>-th timer fires after its delay has passed (never before).
\<close>

record env =
  replies :: "nat \<Rightarrow> reply"
  lag :: "nat \<Rightarrow> nat"

record request =
  hostname :: string
  port :: nat
  path :: string
  http_method :: string
  headers :: "(string \<times> string) list"
  sn_list :: "string list"

text \<open>
  The state of the world: the clock that \<open>Date.now()\<close> reads (milliseconds), how many
  requests and timers there have been, and the log of what was sent and slept, in order.
  Code that does not wait takes no time.
\<close>

datatype event = Sent int request | Slept int

record world =
  clock :: int
  calls :: nat
  timers :: nat
  trace :: "event list"

definition sleep :: "env \<Rightarrow> int \<Rightarrow> world \<Rightarrow> world" where
  \<comment> \<open>\<open>await sleep(ms)\<close>, in both modules \<open>new Promise(resolve => setTimeout(resolve, ms))\<close>\<close>
  "sleep env ms w =
     w\<lparr> clock := clock w + ms + int (lag env (timers w)),
        timers := timers w + 1,
        trace := trace w @ [Slept ms] \<rparr>"

section \<open>api/client.js\<close>

text \<open>
  The module that \<open>index.js\<close> requires as \<open>./api/client\<close>; under \<open>src\<close> it is the second
  module of the file \<open>client/src/api/signature.js\<close>. What \<open>console.log\<close> prints is left out.
\<close>

definition ENDPOINT :: string where
  "ENDPOINT = ''/device/real/query''"

definition MAX_RETRIES :: nat where
  "MAX_RETRIES = 3"

definition RETRY_DELAY_MS :: int where
  "RETRY_DELAY_MS = 2000"

definition build_request :: "host \<Rightarrow> int \<Rightarrow> string list \<Rightarrow> request" where
  \<comment> \<open>the \<open>options\<close> and body of \<open>queryDevices\<close>; the body \<open>JSON.stringify({ sn_list: snList })\<close>
      is kept as the list it encodes, and \<open>Content-Length\<close>, its size, is left out\<close>
  "build_request h now snList =
     (let timestamp = String_int now;
          signature = generateSignature h ENDPOINT timestamp
      in \<lparr> hostname = ''localhost'',
           port = 3000,
           path = ENDPOINT,
           http_method = ''POST'',
           headers = [(''Content-Type'', ''application/json''),
                      (''timestamp'', timestamp),
                      (''signature'', signature)],
           sn_list = snList \<rparr>)"

definition classify :: "host \<Rightarrow> http_outcome \<Rightarrow> js_error + jsval" where
  \<comment> \<open>the \<open>end\<close> handler of the response and the \<open>error\<close> handler of the request\<close>
  "classify h out =
     (case out of
        Response statusCode data \<Rightarrow>
          (if statusCode = 200 then
             (case JSON_parse h data of
                Inr v \<Rightarrow> Inr v
              | Inl m \<Rightarrow> Inl (Error (''Failed to parse response: '' @ m)))
           else if statusCode = 429 then
             Inl (Rejection (StatusCode 429) ''Rate limited'' True)
           else
             Inl (Rejection (StatusCode statusCode) data (500 \<le> statusCode)))
      | ConnError m \<Rightarrow> Inl (Rejection NETWORK_ERROR m True))"

definition queryDevices ::
  "host \<Rightarrow> env \<Rightarrow> string list \<Rightarrow> world \<Rightarrow> (js_error + jsval) \<times> world" where
  "queryDevices h env snList w =
     (let r = replies env (calls w)
      in (classify h (outcome r),
          w\<lparr> clock := clock w + int (latency r),
             calls := calls w + 1,
             trace := trace w @ [Sent (clock w) (build_request h (clock w) snList)] \<rparr>))"

function queryDevicesWithRetry ::
  "host \<Rightarrow> env \<Rightarrow> string list \<Rightarrow> nat \<Rightarrow> world \<Rightarrow> (js_error + jsval) \<times> world" where
  "queryDevicesWithRetry h env snList attempt w =
     (case queryDevices h env snList w of
        (Inr v, w') \<Rightarrow> (Inr v, w')
      | (Inl err, w') \<Rightarrow>
          (if retryable err \<and> attempt < MAX_RETRIES
           then queryDevicesWithRetry h env snList (attempt + 1)
                  (sleep env (RETRY_DELAY_MS * int attempt) w')
           else (Inl err, w')))"
  by pat_completeness auto
termination
  by (relation "measure (\<lambda>(h, env, snList, attempt, w). MAX_RETRIES - attempt)") auto

declare queryDevicesWithRetry.simps [simp del]

section \<open>api/rateLimiter.js\<close>

text \<open>
  The fields of the class. The type \<open>'e\<close> is what \<open>enqueue\<close> pushes on the queue: the
  request function with the \<open>resolve\<close> and \<open>reject\<close> of its promise.
\<close>

record 'e RateLimiter =
  minIntervalMs :: int
  lastRequestTime :: int
  queue :: "'e list"
  isProcessing :: bool

text \<open>
  \<open>processQueue\<close> is an async function: it runs until an \<open>await\<close>, and goes on when
  the awaited promise settles. \<open>pending\<close> is where its one activation waits:
  nowhere (\<open>Idle\<close>), at \<open>await this.sleep(waitTime)\<close> with the entry it took, the time
  the timer was set and \<open>waitTime\<close>, or at \<open>await requestFn()\<close>. \<open>admitted\<close> is the log of
  the calls of \<open>requestFn\<close>: when, and for which entry, oldest first.
\<close>

datatype 'e await = Idle | AwaitSleep 'e int int | AwaitRequest 'e

record 'e limiter = "'e RateLimiter" +
  pending :: "'e await"
  admitted :: "(int \<times> 'e) list"

definition new_RateLimiter :: "int \<Rightarrow> 'e limiter" where
  \<comment> \<open>the constructor\<close>
  "new_RateLimiter m =
     \<lparr> minIntervalMs = m, lastRequestTime = 0, queue = [], isProcessing = False,
       pending = Idle, admitted = [] \<rparr>"

definition admit :: "int \<Rightarrow> 'e \<Rightarrow> 'e limiter \<Rightarrow> 'e limiter" where
  \<comment> \<open>\<open>this.lastRequestTime = Date.now(); const result = await requestFn();\<close> up to the await\<close>
  "admit now e L =
     L\<lparr> lastRequestTime := now, pending := AwaitRequest e, admitted := admitted L @ [(now, e)] \<rparr>"

definition loop_head :: "int \<Rightarrow> 'e limiter \<Rightarrow> 'e limiter" where
  \<comment> \<open>the test of the \<open>while\<close> loop and its body up to the first await, or the exit of the loop\<close>
  "loop_head now L =
     (case queue L of
        [] \<Rightarrow> L\<lparr> isProcessing := False, pending := Idle \<rparr>
      | e # rest \<Rightarrow>
          (let L' = L\<lparr> queue := rest \<rparr>;
               timeSinceLastRequest = now - lastRequestTime L;
               waitTime = max 0 (minIntervalMs L - timeSinceLastRequest)
           in if 0 < waitTime then L'\<lparr> pending := AwaitSleep e now waitTime \<rparr>
              else admit now e L'))"

definition processQueue :: "int \<Rightarrow> 'e limiter \<Rightarrow> 'e limiter" where
  "processQueue now L =
     (if isProcessing L \<or> queue L = [] then L
      else loop_head now (L\<lparr> isProcessing := True \<rparr>))"

definition enqueue :: "int \<Rightarrow> 'e \<Rightarrow> 'e limiter \<Rightarrow> 'e limiter" where
  "enqueue now e L = processQueue now (L\<lparr> queue := queue L @ [e] \<rparr>)"

definition timer_fired :: "int \<Rightarrow> 'e limiter \<Rightarrow> 'e limiter" where
  \<comment> \<open>\<open>processQueue\<close> goes on after \<open>await this.sleep(waitTime)\<close>\<close>
  "timer_fired now L =
     (case pending L of AwaitSleep e start waitTime \<Rightarrow> admit now e L | _ \<Rightarrow> L)"

definition request_settled :: "int \<Rightarrow> 'e limiter \<Rightarrow> 'e limiter" where
  \<comment> \<open>\<open>processQueue\<close> goes on after \<open>await requestFn()\<close>: \<open>resolve\<close> or \<open>reject\<close>, then the loop\<close>
  "request_settled now L =
     (case pending L of AwaitRequest e \<Rightarrow> loop_head now L | _ \<Rightarrow> L)"

text \<open>
  What can happen to a rate limiter, each at a time of the clock: some caller calls
  \<open>enqueue\<close> or \<open>processQueue\<close>, the timer of the pending sleep fires, the pending
  request settles.
\<close>

datatype 'e rl_event = Enqueue 'e | ProcessQueue | TimerFired | RequestSettled

fun step :: "'e limiter \<Rightarrow> int \<times> 'e rl_event \<Rightarrow> 'e limiter" where
  "step L (now, Enqueue e) = enqueue now e L"
| "step L (now, ProcessQueue) = processQueue now L"
| "step L (now, TimerFired) = timer_fired now L"
| "step L (now, RequestSettled) = request_settled now L"

definition run :: "'e limiter \<Rightarrow> (int \<times> 'e rl_event) list \<Rightarrow> 'e limiter" where
  "run L evs = foldl step L evs"

text \<open>
  A schedule the event loop can produce from time \<open>t\<close> on: the clock never goes back, a
  timer fires only while \<open>processQueue\<close> sleeps and not before its delay has passed, and a
  request settles only while \<open>processQueue\<close> awaits one. That the clock is monotone and
  that \<open>setTimeout\<close> is not early are assumptions on the runtime; \<open>sleep\<close> above makes the
  second one too.
\<close>

fun enabled :: "'e limiter \<Rightarrow> int \<times> 'e rl_event \<Rightarrow> bool" where
  "enabled L (now, Enqueue e) = True"
| "enabled L (now, ProcessQueue) = True"
| "enabled L (now, TimerFired) =
     (case pending L of AwaitSleep e start waitTime \<Rightarrow> start + waitTime \<le> now | _ \<Rightarrow> False)"
| "enabled L (now, RequestSettled) =
     (case pending L of AwaitRequest e \<Rightarrow> True | _ \<Rightarrow> False)"

fun schedule :: "int \<Rightarrow> 'e limiter \<Rightarrow> (int \<times> 'e rl_event) list \<Rightarrow> bool" where
  "schedule t L [] = True"
| "schedule t L (ev # evs) = (t \<le> fst ev \<and> enabled L ev \<and> schedule (fst ev) (step L ev) evs)"

fun spaced :: "int \<Rightarrow> int list \<Rightarrow> bool" where
  \<comment> \<open>successive times are at least \<open>m\<close> apart\<close>
  "spaced m (t # t' # ts) = (t + m \<le> t' \<and> spaced m (t' # ts))"
| "spaced m _ = True"

section \<open>index.js\<close>

text \<open>
  The main module, under \<open>src\<close> the file \<open>unnamed/part_000\<close>. What it prints is left out.
  The entries that \<open>main\<close> puts on the queue are request functions, here functions of the
  world. The event loop runs the rate limiter until \<open>processQueue\<close> has returned: it fires
  the pending timer, or calls the pending request function and settles its promise with
  the result. It returns the results in the order the promises settled.
\<close>

type_synonym task = "world \<Rightarrow> (js_error + jsval) \<times> world"

function event_loop ::
  "env \<Rightarrow> task limiter \<Rightarrow> world \<Rightarrow> (js_error + jsval) list
     \<Rightarrow> (js_error + jsval) list \<times> task limiter \<times> world" where
  "event_loop env L w settled =
     (case pending L of
        Idle \<Rightarrow> (settled, L, w)
      | AwaitSleep e start waitTime \<Rightarrow>
          (let w' = sleep env waitTime w
           in event_loop env (timer_fired (clock w') L) w' settled)
      | AwaitRequest e \<Rightarrow>
          (case e w of (r, w') \<Rightarrow>
             event_loop env (request_settled (clock w') L) w' (settled @ [r])))"
  by pat_completeness auto
termination
proof (relation "measure (\<lambda>(env, L, w, settled).
         2 * length (queue L)
         + (case pending L of Idle \<Rightarrow> 0 | AwaitSleep e s d \<Rightarrow> 2 | AwaitRequest e \<Rightarrow> 1))")
  show "wf (measure (\<lambda>(env, L, w, settled).
         2 * length (queue L)
         + (case pending L of Idle \<Rightarrow> 0 | AwaitSleep e s d \<Rightarrow> 2 | AwaitRequest e \<Rightarrow> 1)))"
    by simp
next
  fix env :: env and L :: "task limiter" and w :: world
    and settled :: "(js_error + jsval) list" and e start waitTime w'
  assume "pending L = AwaitSleep e start waitTime"
  then show "((env, timer_fired (clock w') L, w', settled), (env, L, w, settled))
      \<in> measure (\<lambda>(env, L, w, settled).
         2 * length (queue L)
         + (case pending L of Idle \<Rightarrow> 0 | AwaitSleep e s d \<Rightarrow> 2 | AwaitRequest e \<Rightarrow> 1))"
    by (simp add: timer_fired_def admit_def)
next
  fix env :: env and L :: "task limiter" and w :: world
    and settled :: "(js_error + jsval) list" and e x r w'
  assume "pending L = AwaitRequest e"
  then show "((env, request_settled (clock w') L, w', settled @ [r]), (env, L, w, settled))
      \<in> measure (\<lambda>(env, L, w, settled).
         2 * length (queue L)
         + (case pending L of Idle \<Rightarrow> 0 | AwaitSleep e s d \<Rightarrow> 2 | AwaitRequest e \<Rightarrow> 1))"
    by (simp add: request_settled_def loop_head_def admit_def Let_def split: list.splits)
qed

declare event_loop.simps [simp del]

definition await_enqueue ::
  "env \<Rightarrow> task \<Rightarrow> task limiter \<Rightarrow> world
     \<Rightarrow> ((js_error + jsval) \<times> task limiter \<times> world) option" where
  \<comment> \<open>\<open>await rateLimiter.enqueue(fn)\<close>: the entry pushed is the last one served, and \<open>None\<close>
      when its promise never settles\<close>
  "await_enqueue env fn L w =
     (case event_loop env (enqueue (clock w) fn L) w [] of
        (settled, L', w') \<Rightarrow>
          (if settled = [] then None else Some (last settled, L', w')))"

text \<open>\<open>error.message || error\<close>: the message when it is not empty, else the error itself.\<close>

datatype recorded = Message string | Whole js_error

definition message_or_error :: "js_error \<Rightarrow> recorded" where
  "message_or_error e = (if message e \<noteq> [] then Message (message e) else Whole e)"

record failure =
  batch :: nat
  devices :: "string list"
  error :: recorded

record run_state =
  results :: "jsval list"
  errors :: "failure list"
  rateLimiter :: "task limiter"
  world :: world

definition response_data :: "js_error + jsval \<Rightarrow> js_error + jsval" where
  \<comment> \<open>inside \<open>try\<close>, the awaited result and then the read of \<open>response.data\<close>: \<open>Inr\<close> the value
      of \<open>response.data\<close>, \<open>Inl\<close> what the \<open>catch\<close> clause receives\<close>
  "response_data r = (case r of Inl err \<Rightarrow> Inl err | Inr response \<Rightarrow> get_prop response ''data'')"

definition try_batch ::
  "host \<Rightarrow> env \<Rightarrow> string list \<Rightarrow> task limiter \<Rightarrow> world
     \<Rightarrow> ((js_error + jsval) \<times> task limiter \<times> world) option" where
  \<comment> \<open>the \<open>try\<close> block up to the test of \<open>response.data\<close>\<close>
  "try_batch h env b L w =
     (case await_enqueue env (queryDevicesWithRetry h env b 1) L w of
        None \<Rightarrow> None
      | Some (r, L', w') \<Rightarrow> Some (response_data r, L', w'))"

function main_loop ::
  "host \<Rightarrow> env \<Rightarrow> string list list \<Rightarrow> nat \<Rightarrow> run_state \<Rightarrow> run_state option" where
  "main_loop h env batches i st =
     (if i < length batches then
        (let b = batches ! i;
             batchNumber = i + 1
         in case try_batch h env b (rateLimiter st) (world st) of
              None \<Rightarrow> None
            | Some (Inr d, L', w') \<Rightarrow>
                main_loop h env batches (i + 1)
                  (st\<lparr> results := (if truthy d then results st @ [d] else results st),
                       rateLimiter := L', world := w' \<rparr>)
            | Some (Inl err, L', w') \<Rightarrow>
                main_loop h env batches (i + 1)
                  (st\<lparr> errors := errors st
                         @ [\<lparr> batch = batchNumber, devices = b, error = message_or_error err \<rparr>],
                       rateLimiter := L', world := w' \<rparr>))
      else Some st)"
  by pat_completeness auto
termination
  by (relation "measure (\<lambda>(h, env, batches, i, st). length batches - i)") auto

declare main_loop.simps [simp del]

definition main ::
  "host \<Rightarrow> env \<Rightarrow> world \<Rightarrow> ((js_error + report) \<times> failure list \<times> run_state) option" where
  \<comment> \<open>\<open>None\<close>: \<open>main\<close> never returns; \<open>Inl\<close>: its promise is rejected\<close>
  "main h env w =
     (let serialNumbers = generateSerialNumbers 500
      in case createBatches serialNumbers BATCH_SIZE of
           None \<Rightarrow> None
         | Some batches \<Rightarrow>
             (case main_loop h env batches 0
                     \<lparr> results = [], errors = [], rateLimiter = new_RateLimiter 1100, world = w \<rparr> of
                None \<Rightarrow> None
              | Some st \<Rightarrow>
                  Some (aggregateResults h (clock (world st)) (results st), errors st, st)))"

section \<open>Vocabulary of the properties\<close>

text \<open>
  A device record of a payload is an object, given by its list of properties. Its status is
  \<open>s\<close> when its \<open>status\<close> property is the string \<open>s\<close>; its power value is what the
  reducer of \<open>aggregateResults\<close> adds for it.
\<close>

definition has_status :: "string \<Rightarrow> (string \<times> jsval) list \<Rightarrow> bool" where
  "has_status s kvs = (map_of kvs ''status'' = Some (JStr s))"

definition power_value :: "host \<Rightarrow> (string \<times> jsval) list \<Rightarrow> jsnum" where
  "power_value h kvs =
     (let power = parseFloat h (case map_of kvs ''power'' of None \<Rightarrow> JUndefined | Some v \<Rightarrow> v)
      in if isNaN power then Num 0 else power)"

text \<open>
  A host, a device record, a network and a starting state for the example runs. The
  network answers the first requests as a script says and every later one with status 200
  and a payload of one device.
\<close>

definition example_device :: "string \<Rightarrow> (string \<times> jsval) list" where
  "example_device st = [(''sn'', JStr ''SN-000''), (''power'', JStr ''2.5''), (''status'', JStr st)]"

definition example_body :: string where
  "example_body = ''{ data: [ { sn: SN-000, power: 2.5, status: Online } ] }''"

definition example_host :: host where
  "example_host =
     \<lparr> md5 = (\<lambda>s. if s = ''/device/real/queryinterview_token_1231700000000000''
                   then [0x19, 0x2e, 0x6a, 0x35, 0xc4, 0x5c, 0x5f, 0x24,
                         0xd5, 0x10, 0x3c, 0x72, 0xc4, 0xba, 0x77, 0xe9]
                   else replicate 16 0),
       JSON_parse = (\<lambda>s. if s = ''{}'' then Inr (JObj [])
                         else if s = example_body
                         then Inr (JObj [(''data'', JArr [JObj (example_device ''Online'')])])
                         else Inl ''Unexpected end of JSON input''),
       parseFloat = (\<lambda>v. if v = JStr ''2.5'' then Num (5 / 2) else NaN),
       Number_toString = (\<lambda>r. ''1e+21''),
       toISOString = (\<lambda>ms. ''1970-01-01T00:00:00.000Z'') \<rparr>"

definition example_env :: "http_outcome list \<Rightarrow> env" where
  "example_env script =
     \<lparr> replies = (\<lambda>n. \<lparr> latency = 25,
                         outcome = (if n < length script then script ! n
                                    else Response 200 example_body) \<rparr>),
       lag = (\<lambda>n. 3) \<rparr>"

definition example_world :: world where
  "example_world = \<lparr> clock = 1700000000000, calls = 0, timers = 0, trace = [] \<rparr>"

definition example_state :: run_state where
  "example_state =
     \<lparr> results = [], errors = [], rateLimiter = new_RateLimiter 1100, world = example_world \<rparr>"

text \<open>
  A rate limiter is idle when \<open>processQueue\<close> is not running and nothing is queued. The
  delay of the gate at a time is the \<open>waitTime\<close> that \<open>processQueue\<close> computes then, and the
  world at the admission is the world after that delay.
\<close>

definition idle :: "'e limiter \<Rightarrow> bool" where
  "idle L = (pending L = Idle \<and> queue L = [] \<and> \<not> isProcessing L)"

definition gate_delay :: "int \<Rightarrow> int \<Rightarrow> int \<Rightarrow> int" where
  "gate_delay m t now = max 0 (m - (now - t))"

definition gate :: "env \<Rightarrow> int \<Rightarrow> int \<Rightarrow> world \<Rightarrow> world" where
  "gate env m t w =
     (if 0 < gate_delay m t (clock w) then sleep env (gate_delay m t (clock w)) w else w)"

text \<open>
  The run of \<open>main\<close> read item by item, for a rate limiter with interval \<open>m\<close> whose last
  admission was at \<open>t\<close>: for each batch, in order, the world at its admission, what
  \<open>queryDevicesWithRetry\<close> settles with, and the world then.
\<close>

fun executions ::
  "host \<Rightarrow> env \<Rightarrow> int \<Rightarrow> int \<Rightarrow> string list list \<Rightarrow> world
     \<Rightarrow> (world \<times> (js_error + jsval) \<times> world) list" where
  "executions h env m t [] w = []"
| "executions h env m t (b # bs) w =
     (let w1 = gate env m t w
      in case queryDevicesWithRetry h env b 1 w1 of
           (r, w2) \<Rightarrow> (w1, r, w2) # executions h env m (clock w1) bs w2)"

definition outcome_of :: "world \<times> (js_error + jsval) \<times> world \<Rightarrow> js_error + jsval" where
  "outcome_of x = response_data (fst (snd x))"

text \<open>
  What the two logs gain from a list of outcomes: the truthy values of \<open>response.data\<close>,
  and a record with the batch number and the batch for each outcome that was caught.
\<close>

fun successes :: "(js_error + jsval) list \<Rightarrow> jsval list" where
  "successes [] = []"
| "successes (Inr d # rs) = (if truthy d then d # successes rs else successes rs)"
| "successes (Inl err # rs) = successes rs"

fun failures :: "nat \<Rightarrow> string list list \<Rightarrow> (js_error + jsval) list \<Rightarrow> failure list" where
  "failures i (b # bs) (Inl err # rs) =
     \<lparr> batch = i + 1, devices = b, error = message_or_error err \<rparr> # failures (i + 1) bs rs"
| "failures i (b # bs) (Inr d # rs) = failures (i + 1) bs rs"
| "failures i _ _ = []"

fun admissions ::
  "host \<Rightarrow> env \<Rightarrow> string list list \<Rightarrow> (world \<times> (js_error + jsval) \<times> world) list
     \<Rightarrow> (int \<times> task) list" where
  "admissions h env (b # bs) (x # xs) =
     (clock (fst x), queryDevicesWithRetry h env b 1) # admissions h env bs xs"
| "admissions h env _ _ = []"

fun last_world :: "world \<Rightarrow> (world \<times> (js_error + jsval) \<times> world) list \<Rightarrow> world" where
  "last_world w [] = w"
| "last_world w (x # xs) = last_world (snd (snd x)) xs"

fun last_admission :: "int \<Rightarrow> (world \<times> (js_error + jsval) \<times> world) list \<Rightarrow> int" where
  "last_admission t [] = t"
| "last_admission t (x # xs) = last_admission (clock (fst x)) xs"

text \<open>
  What holds of a rate limiter with interval \<open>m\<close> at every time \<open>t\<close> of a schedule: the
  admissions so far are at least \<open>m\<close> apart, \<open>lastRequestTime\<close> is the time of the latest one,
  \<open>isProcessing\<close> says whether \<open>processQueue\<close> is running, and a pending sleep ends no
  earlier than \<open>m\<close> after the latest admission.
\<close>

definition rl_inv :: "int \<Rightarrow> int \<Rightarrow> 'e limiter \<Rightarrow> bool" where
  "rl_inv m t L =
     (minIntervalMs L = m
      \<and> spaced m (map fst (admitted L))
      \<and> (admitted L \<noteq> [] \<longrightarrow>
            lastRequestTime L = fst (last (admitted L)) \<and> lastRequestTime L \<le> t)
      \<and> (isProcessing L \<longleftrightarrow> pending L \<noteq> Idle)
      \<and> (case pending L of
            AwaitSleep e start d \<Rightarrow> lastRequestTime L + m \<le> start + d
          | _ \<Rightarrow> True))"

text \<open>
  An outcome is logged when it is caught or its \<open>response.data\<close> is truthy. The times of
  the requests of a trace, in order.
\<close>

fun logged :: "js_error + jsval \<Rightarrow> bool" where
  "logged (Inl err) = True"
| "logged (Inr d) = truthy d"

fun sent_times :: "event list \<Rightarrow> int list" where
  "sent_times [] = []"
| "sent_times (Sent t r # evs) = t # sent_times evs"
| "sent_times (Slept ms # evs) = sent_times evs"

fun recorded_message :: "recorded \<Rightarrow> string" where
  "recorded_message (Message m) = m"
| "recorded_message (Whole err) = message err"

text \<open>
  Before the first admission of a rate limiter with interval \<open>m\<close> nothing waits: while
  \<open>admitted\<close> is empty the rate limiter is idle and \<open>lastRequestTime\<close> is still 0.
\<close>

definition first_inv :: "int \<Rightarrow> 'e limiter \<Rightarrow> bool" where
  "first_inv m L =
     (minIntervalMs L = m \<and> (admitted L = [] \<longrightarrow> idle L \<and> lastRequestTime L = 0))"

text \<open>
  The delays of the sleeps of a trace, in order, and what makes \<open>queryDevicesWithRetry\<close>
  try again: a failure with a true \<open>retryable\<close>.
\<close>

fun slept_delays :: "event list \<Rightarrow> int list" where
  "slept_delays [] = []"
| "slept_delays (Sent t r # evs) = slept_delays evs"
| "slept_delays (Slept ms # evs) = ms # slept_delays evs"

fun retryable_failure :: "js_error + jsval \<Rightarrow> bool" where
  "retryable_failure (Inl err) = retryable err"
| "retryable_failure (Inr v) = False"

section \<open>Batching\<close>

lemma createBatches_loop_spec:
  assumes "0 < batchSize"
  shows "\<exists>bs. createBatches_loop array batchSize i batches = Some (batches @ bs)
           \<and> concat bs = drop i array
           \<and> (\<forall>b \<in> set bs. 0 < length b \<and> length b \<le> batchSize)
           \<and> (\<forall>b \<in> set (butlast bs). length b = batchSize)"
proof (induction "length array - i" arbitrary: i batches rule: less_induct)
  case less
  show ?case
  proof (cases "i < length array")
    case False
    then show ?thesis
      by (subst createBatches_loop.simps) simp
  next
    case True
    let ?b = "slice array i (i + batchSize)"
    have "length array - (i + batchSize) < length array - i"
      using True assms by arith
    from less[OF this, of "batches @ [?b]"]
    obtain bs where bs:
      "createBatches_loop array batchSize (i + batchSize) (batches @ [?b])
         = Some ((batches @ [?b]) @ bs)"
      "concat bs = drop (i + batchSize) array"
      "\<forall>b \<in> set bs. 0 < length b \<and> length b \<le> batchSize"
      "\<forall>b \<in> set (butlast bs). length b = batchSize"
      by blast
    have b_len: "0 < length ?b" "length ?b \<le> batchSize"
      using True assms by (simp_all add: slice_def)
    have b_full: "length ?b = batchSize" if "bs \<noteq> []"
    proof -
      from that obtain c cs where c: "bs = c # cs" by (cases bs) auto
      with bs(3) have "0 < length c" by simp
      with c bs(2) have "drop (i + batchSize) array \<noteq> []" by auto
      then have "i + batchSize < length array" by simp
      then show ?thesis by (simp add: slice_def)
    qed
    have cat: "concat (?b # bs) = drop i array"
    proof -
      have "take batchSize (drop i array) @ drop batchSize (drop i array) = drop i array"
        by (rule append_take_drop_id)
      then show ?thesis using bs(2) by (simp add: slice_def add.commute)
    qed
    have "createBatches_loop array batchSize i batches = Some (batches @ (?b # bs))"
      using True bs(1) by (subst createBatches_loop.simps) simp
    moreover have "\<forall>b \<in> set (?b # bs). 0 < length b \<and> length b \<le> batchSize"
      using bs(3) b_len by simp
    moreover have "\<forall>b \<in> set (butlast (?b # bs)). length b = batchSize"
      using bs(4) b_full by simp
    ultimately show ?thesis using cat by blast
  qed
qed

lemma nth_of_batches:
  "concat bs = xs \<Longrightarrow> \<forall>b \<in> set (butlast bs). length b = n \<Longrightarrow> \<forall>b \<in> set bs. length b \<le> n
     \<Longrightarrow> k < length bs \<Longrightarrow> bs ! k = take n (drop (n * k) xs)"
proof (induction bs arbitrary: xs k)
  case Nil
  then show ?case by simp
next
  case (Cons b bs)
  show ?case
  proof (cases k)
    case 0
    show ?thesis
    proof (cases "bs = []")
      case True
      with Cons.prems 0 show ?thesis by auto
    next
      case False
      with Cons.prems have "length b = n" by simp
      with Cons.prems 0 show ?thesis by auto
    qed
  next
    case (Suc j)
    with Cons.prems have ne: "bs \<noteq> []" by auto
    with Cons.prems have len: "length b = n" by simp
    have "bs ! j = take n (drop (n * j) (concat bs))"
      using Cons.prems ne Suc by (intro Cons.IH) auto
    moreover have "drop (n * k) xs = drop (n * j) (concat bs)"
      using Cons.prems(1) len Suc by auto
    ultimately show ?thesis using Suc by simp
  qed
qed

lemma createBatches_25:
  "length array = 25 \<Longrightarrow>
   createBatches array 10 = Some [slice array 0 10, slice array 10 20, slice array 20 25]"
  by (simp add: createBatches_def createBatches_loop.simps slice_def)

text \<open>
  Claim C8. With the batch size 10, \<open>createBatches\<close> returns, for every list, batches
  whose concatenation is the list, each of at most 10 elements and each but the last of
  exactly 10; batch \<open>k\<close> is the slice from index \<open>10 * k\<close> to \<open>10 * k + 10\<close>. A list of 25
  elements gives three batches, of the elements at indices 0 to 9, 10 to 19 and 20 to 24.
\<close>

theorem createBatches_slices:
  "\<exists>bs. createBatches array BATCH_SIZE = Some bs
      \<and> concat bs = array
      \<and> (\<forall>b \<in> set bs. length b \<le> 10)
      \<and> (\<forall>b \<in> set (butlast bs). length b = 10)
      \<and> (\<forall>k < length bs. bs ! k = slice array (10 * k) (10 * k + 10))
      \<and> (length array = 25 \<longrightarrow>
           bs = [slice array 0 10, slice array 10 20, slice array 20 25]
           \<and> map length bs = [10, 10, 5]
           \<and> last bs = map (\<lambda>i. array ! i) [20, 21, 22, 23, 24])"
proof -
  from createBatches_loop_spec[of 10 array 0 "[]"]
  obtain bs where bs:
    "createBatches array BATCH_SIZE = Some bs"
    "concat bs = array"
    "\<forall>b \<in> set bs. 0 < length b \<and> length b \<le> 10"
    "\<forall>b \<in> set (butlast bs). length b = 10"
    by (auto simp: createBatches_def BATCH_SIZE_def)
  have nth: "\<forall>k < length bs. bs ! k = slice array (10 * k) (10 * k + 10)"
    using nth_of_batches[OF bs(2) bs(4)] bs(3) by (simp add: slice_def)
  have scenario: "bs = [slice array 0 10, slice array 10 20, slice array 20 25]
      \<and> map length bs = [10, 10, 5]
      \<and> last bs = map (\<lambda>i. array ! i) [20, 21, 22, 23, 24]" if len: "length array = 25"
  proof -
    have eq: "bs = [slice array 0 10, slice array 10 20, slice array 20 25]"
      using createBatches_25[OF len] bs(1) by (simp add: BATCH_SIZE_def)
    have "drop 20 array = map (\<lambda>i. array ! i) [20, 21, 22, 23, 24]"
      using len by (intro nth_equalityI) (auto simp: nth_Cons split: nat.splits)
    with eq len show ?thesis by (simp add: slice_def)
  qed
  have le: "\<forall>b \<in> set bs. length b \<le> 10"
    using bs(3) by blast
  have sc: "length array = 25 \<longrightarrow>
      bs = [slice array 0 10, slice array 10 20, slice array 20 25]
      \<and> map length bs = [10, 10, 5]
      \<and> last bs = map (\<lambda>i. array ! i) [20, 21, 22, 23, 24]"
    using scenario by (rule impI)
  show ?thesis
    by (rule exI[of _ bs]) (intro conjI; fact bs(1) bs(2) le bs(4) nth sc)
qed

lemma generateSerialNumbers_25:
  "generateSerialNumbers 25 =
     [''SN-000'', ''SN-001'', ''SN-002'', ''SN-003'', ''SN-004'',
      ''SN-005'', ''SN-006'', ''SN-007'', ''SN-008'', ''SN-009'',
      ''SN-010'', ''SN-011'', ''SN-012'', ''SN-013'', ''SN-014'',
      ''SN-015'', ''SN-016'', ''SN-017'', ''SN-018'', ''SN-019'',
      ''SN-020'', ''SN-021'', ''SN-022'', ''SN-023'', ''SN-024'']"
  by code_simp

theorem createBatches_slices_witness:
  "createBatches (generateSerialNumbers 25) BATCH_SIZE =
     Some [[''SN-000'', ''SN-001'', ''SN-002'', ''SN-003'', ''SN-004'',
            ''SN-005'', ''SN-006'', ''SN-007'', ''SN-008'', ''SN-009''],
           [''SN-010'', ''SN-011'', ''SN-012'', ''SN-013'', ''SN-014'',
            ''SN-015'', ''SN-016'', ''SN-017'', ''SN-018'', ''SN-019''],
           [''SN-020'', ''SN-021'', ''SN-022'', ''SN-023'', ''SN-024'']]"
proof -
  have len: "length (generateSerialNumbers 25) = 25"
    by (simp add: generateSerialNumbers_25)
  from createBatches_slices[of "generateSerialNumbers 25"] len
  obtain bs where
    "createBatches (generateSerialNumbers 25) BATCH_SIZE = Some bs"
    "bs = [slice (generateSerialNumbers 25) 0 10, slice (generateSerialNumbers 25) 10 20,
           slice (generateSerialNumbers 25) 20 25]"
    by blast
  then show ?thesis
    by (simp add: generateSerialNumbers_25 slice_def)
qed

section \<open>Aggregation\<close>

lemma toFixed_NaN: "toFixed h 2 NaN = ''NaN''"
  by (simp add: toFixed_def)

lemma toFixed_zero: "toFixed h 2 (Num 0) = ''0.00''"
  by code_simp

text \<open>
  Claim C10. On the empty list of results \<open>aggregateResults\<close> throws nothing: the three
  counts are 0, the total power is \<open>0.00 kW\<close>, and the two quotients by the number of
  devices are \<open>0 / 0\<close>, so the percentage is \<open>NaN%\<close> and the average \<open>NaN kW\<close>.
\<close>

theorem aggregateResults_empty:
  "aggregateResults h now [] =
     Inr \<lparr> summary = \<lparr> totalDevices = 0, onlineDevices = 0, offlineDevices = 0,
                       onlinePercentage = ''NaN%'',
                       totalPowerKW = ''0.00 kW'',
                       averagePowerKW = ''NaN kW'',
                       generatedAt = toISOString h now \<rparr>,
           devices = [] \<rparr>"
  by (simp add: aggregateResults_def flat_def toFixed_NaN toFixed_zero)

lemma flat_two: "flat [JArr a, JArr b] = a @ b"
  by (simp add: flat_def)

lemma status_is_objects:
  "status_is s (map JObj ps) = Inr (map JObj (filter (has_status s) ps))"
  by (induction ps) (auto simp: has_status_def split: option.splits)

lemma totalPower_reduce_objects:
  "totalPower_reduce h acc (map JObj ps) = Inr (foldl js_add acc (map (power_value h) ps))"
  by (induction ps arbitrary: acc) (simp_all add: power_value_def Let_def)

lemma percentage_9_of_15: "toFixed h 2 (js_mul (js_div (Num 9) (Num 15)) (Num 100)) = ''60.00''"
  by code_simp

lemma total_37_5: "toFixed h 2 (Num (75 / 2)) = ''37.50''"
  by code_simp

lemma average_37_5_of_15: "toFixed h 2 (js_div (Num (75 / 2)) (Num 15)) = ''2.50''"
  by code_simp

text \<open>
  Claim C9. Two success payloads that hold 15 device records together, 9 of status
  \<open>Online\<close> and 6 of status \<open>Offline\<close>, whose power values add up to 37.5 (added as
  JavaScript adds them, from the left, starting at 0): \<open>aggregateResults\<close> returns the
  counts 15, 9 and 6, the percentage \<open>60.00%\<close>, the total \<open>37.50 kW\<close> and the average
  \<open>2.50 kW\<close>.
\<close>

theorem aggregateResults_scenario:
  assumes "rs = [JArr (map JObj p1), JArr (map JObj p2)]"
    and "length (p1 @ p2) = 15"
    and "length (filter (has_status ''Online'') (p1 @ p2)) = 9"
    and "length (filter (has_status ''Offline'') (p1 @ p2)) = 6"
    and "foldl js_add (Num 0) (map (power_value h) (p1 @ p2)) = Num (75 / 2)"
  shows "aggregateResults h now rs =
     Inr \<lparr> summary = \<lparr> totalDevices = 15, onlineDevices = 9, offlineDevices = 6,
                       onlinePercentage = ''60.00%'',
                       totalPowerKW = ''37.50 kW'',
                       averagePowerKW = ''2.50 kW'',
                       generatedAt = toISOString h now \<rparr>,
           devices = map JObj (p1 @ p2) \<rparr>"
proof -
  have fl: "flat rs = map JObj (p1 @ p2)"
    using assms(1) by (simp add: flat_two)
  have len: "length (map JObj (p1 @ p2)) = 15"
    using assms(2) by simp
  show ?thesis
    unfolding aggregateResults_def Let_def fl status_is_objects totalPower_reduce_objects
      assms(5) len
    using assms(3) assms(4)
    by (simp add: percentage_9_of_15 total_37_5 average_37_5_of_15
          del: js_div.simps js_mul.simps)
qed

lemma example_sum:
  "foldl js_add (Num 0) (map (power_value example_host)
      (replicate 9 (example_device ''Online'') @ replicate 6 (example_device ''Offline'')))
    = Num (75 / 2)"
  by code_simp

theorem aggregateResults_scenario_witness:
  "aggregateResults example_host 0
     [JArr (map JObj (replicate 8 (example_device ''Online''))),
      JArr (map JObj (example_device ''Online'' # replicate 6 (example_device ''Offline'')))]
   = Inr \<lparr> summary = \<lparr> totalDevices = 15, onlineDevices = 9, offlineDevices = 6,
                       onlinePercentage = ''60.00%'',
                       totalPowerKW = ''37.50 kW'',
                       averagePowerKW = ''2.50 kW'',
                       generatedAt = ''1970-01-01T00:00:00.000Z'' \<rparr>,
           devices = map JObj (replicate 9 (example_device ''Online'')
                               @ replicate 6 (example_device ''Offline'')) \<rparr>"
proof -
  let ?p1 = "replicate 8 (example_device ''Online'')"
  let ?p2 = "example_device ''Online'' # replicate 6 (example_device ''Offline'')"
  have eq: "?p1 @ ?p2 = replicate 9 (example_device ''Online'') @ replicate 6 (example_device ''Offline'')"
    by (simp add: numeral_eq_Suc replicate_app_Cons_same)
  have on: "has_status ''Online'' (example_device ''Online'')"
    "\<not> has_status ''Online'' (example_device ''Offline'')"
    "has_status ''Offline'' (example_device ''Offline'')"
    "\<not> has_status ''Offline'' (example_device ''Online'')"
    by (simp_all add: has_status_def example_device_def)
  have h3: "length (filter (has_status ''Online'') (?p1 @ ?p2)) = 9"
    unfolding eq using on by simp
  have h4: "length (filter (has_status ''Offline'') (?p1 @ ?p2)) = 6"
    unfolding eq using on by simp
  have h5: "foldl js_add (Num 0) (map (power_value example_host) (?p1 @ ?p2)) = Num (75 / 2)"
    unfolding eq by (rule example_sum)
  have "aggregateResults example_host 0 [JArr (map JObj ?p1), JArr (map JObj ?p2)] =
     Inr \<lparr> summary = \<lparr> totalDevices = 15, onlineDevices = 9, offlineDevices = 6,
                       onlinePercentage = ''60.00%'',
                       totalPowerKW = ''37.50 kW'',
                       averagePowerKW = ''2.50 kW'',
                       generatedAt = toISOString example_host 0 \<rparr>,
           devices = map JObj (?p1 @ ?p2) \<rparr>"
    by (rule aggregateResults_scenario[OF refl _ h3 h4 h5]) simp
  then show ?thesis
    unfolding eq by (simp add: example_host_def)
qed

section \<open>Signing\<close>

lemma hex_digit_lower: "d < 16 \<Longrightarrow> hex_digit d \<in> set ''0123456789abcdef''"
  unfolding hex_digit_def by (rule nth_mem) simp

lemma hex_byte_lower: "c \<in> set (hex_byte b) \<Longrightarrow> c \<in> set ''0123456789abcdef''"
proof -
  assume c: "c \<in> set (hex_byte b)"
  have "unat b < 256"
    using unsigned_less[of b] by simp
  then have "unat b div 16 < 16" "unat b mod 16 < 16"
    by simp_all
  then have "hex_digit (unat b div 16) \<in> set ''0123456789abcdef''"
    "hex_digit (unat b mod 16) \<in> set ''0123456789abcdef''"
    by (simp_all only: hex_digit_lower)
  with c show ?thesis
    by (auto simp only: hex_byte_def set_simps insert_iff empty_iff)
qed

lemma digest_hex_lower: "c \<in> set (digest_hex bytes) \<Longrightarrow> c \<in> set ''0123456789abcdef''"
  by (auto simp only: digest_hex_def set_concat set_map dest: hex_byte_lower)

lemma length_digest_hex: "length (digest_hex bytes) = 2 * length bytes"
  by (induction bytes) (simp_all add: digest_hex_def hex_byte_def)

text \<open>
  Claim C7. The token of a path \<open>p\<close> and a timestamp \<open>t\<close> is the digest of
  \<open>p\<close>, the secret and \<open>t\<close>, in this order, written with two lowercase hexadecimal digits
  for each byte; it depends on nothing else. The request that \<open>queryDevices\<close> builds
  signs the path \<open>/device/real/query\<close> and the timestamp it sends.
\<close>

theorem generateSignature_digest:
  "generateSignature h p t = digest_hex (md5 h (p @ ''interview_token_123'' @ t))
   \<and> (\<forall>c \<in> set (generateSignature h p t). c \<in> set ''0123456789abcdef'')
   \<and> length (generateSignature h p t) = 2 * length (md5 h (p @ ''interview_token_123'' @ t))
   \<and> map_of (headers (build_request h now snList)) ''signature''
       = Some (generateSignature h ''/device/real/query'' (String_int now))
   \<and> map_of (headers (build_request h now snList)) ''timestamp'' = Some (String_int now)
   \<and> path (build_request h now snList) = ''/device/real/query''"
proof -
  have eq: "generateSignature h p t = digest_hex (md5 h (p @ ''interview_token_123'' @ t))"
    by (simp add: generateSignature_def TOKEN_def)
  have lower: "\<forall>c \<in> set (generateSignature h p t). c \<in> set ''0123456789abcdef''"
    unfolding eq using digest_hex_lower by blast
  have len: "length (generateSignature h p t) = 2 * length (md5 h (p @ ''interview_token_123'' @ t))"
    unfolding eq by (rule length_digest_hex)
  have req: "map_of (headers (build_request h now snList)) ''signature''
       = Some (generateSignature h ''/device/real/query'' (String_int now))"
    "map_of (headers (build_request h now snList)) ''timestamp'' = Some (String_int now)"
    "path (build_request h now snList) = ''/device/real/query''"
    by (simp_all add: build_request_def ENDPOINT_def Let_def)
  from eq lower len req show ?thesis
    by (intro conjI)
qed

lemma String_int_example: "String_int 1700000000000 = ''1700000000000''"
  by code_simp

theorem generateSignature_digest_witness:
  "generateSignature example_host ''/device/real/query'' ''1700000000000''
     = ''192e6a35c45c5f24d5103c72c4ba77e9''
   \<and> set ''192e6a35c45c5f24d5103c72c4ba77e9'' \<subseteq> set ''0123456789abcdef''
   \<and> map_of (headers (build_request example_host 1700000000000 [''SN-000''])) ''signature''
       = Some ''192e6a35c45c5f24d5103c72c4ba77e9''"
proof -
  have d: "digest_hex (md5 example_host (''/device/real/query'' @ ''interview_token_123''
             @ ''1700000000000'')) = ''192e6a35c45c5f24d5103c72c4ba77e9''"
    by code_simp
  from generateSignature_digest[of example_host "''/device/real/query''" "''1700000000000''"
         1700000000000 "[''SN-000'']"]
  have "generateSignature example_host ''/device/real/query'' ''1700000000000''
      = ''192e6a35c45c5f24d5103c72c4ba77e9''"
    "\<forall>c \<in> set (generateSignature example_host ''/device/real/query'' ''1700000000000'').
       c \<in> set ''0123456789abcdef''"
    "map_of (headers (build_request example_host 1700000000000 [''SN-000''])) ''signature''
       = Some (generateSignature example_host ''/device/real/query'' ''1700000000000'')"
    unfolding String_int_example d by simp_all
  then show ?thesis
    by (simp only: subset_iff) simp
qed

section \<open>Classification of replies\<close>

text \<open>
  Claim C4. What \<open>queryDevices\<close> settles with is decided by the reply alone: status 200
  with a body that parses resolves with the parsed value; status 200 with a body that does
  not parse rejects with an \<open>Error\<close>, which is not retryable; status 429 rejects with code
  429, retryable; a status of 500 or more rejects with that code, retryable; any other
  status from 400 to 499 rejects with that code, not retryable; an error of the connection
  rejects with code \<open>NETWORK_ERROR\<close>, retryable. One call sends one request.
\<close>

theorem queryDevices_classification:
  "fst (queryDevices h env snList w) = classify h (outcome (replies env (calls w)))
   \<and> calls (snd (queryDevices h env snList w)) = calls w + 1
   \<and> (JSON_parse h body1 = Inr v \<longrightarrow> classify h (Response 200 body1) = Inr v)
   \<and> (JSON_parse h body2 = Inl m \<longrightarrow>
        classify h (Response 200 body2) = Inl (Error (''Failed to parse response: '' @ m))
        \<and> \<not> retryable (Error (''Failed to parse response: '' @ m)))
   \<and> classify h (Response 429 body3) = Inl (Rejection (StatusCode 429) ''Rate limited'' True)
   \<and> (500 \<le> s5 \<longrightarrow> classify h (Response s5 body5) = Inl (Rejection (StatusCode s5) body5 True))
   \<and> (400 \<le> s4 \<and> s4 < 500 \<and> s4 \<noteq> 429 \<longrightarrow>
        classify h (Response s4 body4) = Inl (Rejection (StatusCode s4) body4 False))
   \<and> classify h (ConnError msg) = Inl (Rejection NETWORK_ERROR msg True)"
  by (simp add: queryDevices_def classify_def Let_def)

theorem queryDevices_classification_witness:
  "classify example_host (Response 200 ''{}'') = Inr (JObj [])
   \<and> classify example_host (Response 200 ''<html>'')
       = Inl (Error ''Failed to parse response: Unexpected end of JSON input'')
   \<and> classify example_host (Response 503 ''busy'') = Inl (Rejection (StatusCode 503) ''busy'' True)
   \<and> classify example_host (Response 404 ''no'') = Inl (Rejection (StatusCode 404) ''no'' False)"
proof -
  have p1: "JSON_parse example_host ''{}'' = Inr (JObj [])"
    by (simp add: example_host_def)
  have p2: "JSON_parse example_host ''<html>'' = Inl ''Unexpected end of JSON input''"
    by (simp add: example_host_def example_body_def)
  from queryDevices_classification[of example_host _ _ _ "''{}''" "JObj []" "''<html>''"
         "''Unexpected end of JSON input''" _ 503 "''busy''" 404 "''no''"] p1 p2
  show ?thesis
    by simp
qed

section \<open>Retries\<close>

lemma queryDevices_trace:
  "trace (snd (queryDevices h env snList w))
     = trace w @ [Sent (clock w) (build_request h (clock w) snList)]"
  by (simp add: queryDevices_def Let_def)

lemma sleep_clock: "clock w + ms \<le> clock (sleep env ms w)"
  by (simp add: sleep_def)

lemma retry_again:
  "queryDevices h env b w = (Inl err, w1) \<Longrightarrow> retryable err \<Longrightarrow> k < MAX_RETRIES \<Longrightarrow>
   queryDevicesWithRetry h env b k w
     = queryDevicesWithRetry h env b (k + 1) (sleep env (RETRY_DELAY_MS * int k) w1)"
  by (subst queryDevicesWithRetry.simps) simp

lemma retry_stop:
  "queryDevices h env b w = (Inl err, w1) \<Longrightarrow> \<not> (retryable err \<and> k < MAX_RETRIES) \<Longrightarrow>
   queryDevicesWithRetry h env b k w = (Inl err, w1)"
  by (subst queryDevicesWithRetry.simps) auto

lemma queryDevices_pair:
  "queryDevices h env b w
     = (classify h (outcome (replies env (calls w))), snd (queryDevices h env b w))"
  by (simp add: queryDevices_def Let_def)

lemma calls_queryDevices: "calls (snd (queryDevices h env b w)) = calls w + 1"
  by (simp add: queryDevices_def Let_def)

lemma calls_sleep: "calls (sleep env ms w) = calls w"
  by (simp add: sleep_def)

lemma retry_ok:
  "queryDevices h env b w = (Inr v, w1) \<Longrightarrow> queryDevicesWithRetry h env b k w = (Inr v, w1)"
  by (subst queryDevicesWithRetry.simps) simp

lemma slept_delays_append: "slept_delays (xs @ ys) = slept_delays xs @ slept_delays ys"
  by (induction xs rule: slept_delays.induct) simp_all

lemma slept_queryDevices:
  "slept_delays (trace (snd (queryDevices h env b w))) = slept_delays (trace w)"
  by (simp add: queryDevices_def Let_def slept_delays_append)

lemma slept_sleep: "slept_delays (trace (sleep env ms w)) = slept_delays (trace w) @ [ms]"
  by (simp add: sleep_def slept_delays_append)

lemma retry_final:
  assumes "\<not> (retryable_failure (classify h (outcome (replies env (calls w)))) \<and> k < MAX_RETRIES)"
  shows "queryDevicesWithRetry h env b k w = queryDevices h env b w"
proof (cases "classify h (outcome (replies env (calls w)))")
  case (Inl err)
  then have q: "queryDevices h env b w = (Inl err, snd (queryDevices h env b w))"
    using queryDevices_pair[of h env b w] by simp
  have "\<not> (retryable err \<and> k < MAX_RETRIES)"
    using assms Inl by simp
  from retry_stop[OF q this] q show ?thesis by simp
next
  case (Inr v)
  then have q: "queryDevices h env b w = (Inr v, snd (queryDevices h env b w))"
    using queryDevices_pair[of h env b w] by simp
  from retry_ok[OF q] q show ?thesis by simp
qed

lemma retry_next:
  assumes "retryable_failure (classify h (outcome (replies env (calls w))))" "k < MAX_RETRIES"
  shows "queryDevicesWithRetry h env b k w
     = queryDevicesWithRetry h env b (k + 1)
         (sleep env (RETRY_DELAY_MS * int k) (snd (queryDevices h env b w)))"
proof -
  from assms(1) obtain err where
    err: "classify h (outcome (replies env (calls w))) = Inl err" "retryable err"
    by (cases "classify h (outcome (replies env (calls w)))") auto
  then have q: "queryDevices h env b w = (Inl err, snd (queryDevices h env b w))"
    using queryDevices_pair[of h env b w] by simp
  from retry_again[OF q err(2) assms(2)] show ?thesis .
qed

lemma fst_queryDevices:
  "fst (queryDevices h env b w) = classify h (outcome (replies env (calls w)))"
  by (simp add: queryDevices_def Let_def)

lemma retry_run_shape:
  assumes "k \<le> MAX_RETRIES"
  shows "\<exists>n. 1 \<le> n \<and> k + n \<le> MAX_RETRIES + 1
     \<and> calls (snd (queryDevicesWithRetry h env b k w)) = calls w + n
     \<and> fst (queryDevicesWithRetry h env b k w)
         = classify h (outcome (replies env (calls w + (n - 1))))
     \<and> slept_delays (trace (snd (queryDevicesWithRetry h env b k w)))
         = slept_delays (trace w) @ map (\<lambda>j. RETRY_DELAY_MS * int j) [k..<k + (n - 1)]
     \<and> (\<forall>j < n - 1. retryable_failure (classify h (outcome (replies env (calls w + j)))))
     \<and> (k + n \<le> MAX_RETRIES \<longrightarrow> \<not> retryable_failure (fst (queryDevicesWithRetry h env b k w)))"
  using assms
proof (induction "MAX_RETRIES - k" arbitrary: k w)
  case 0
  then have "\<not> k < MAX_RETRIES" by simp
  then have run: "queryDevicesWithRetry h env b k w = queryDevices h env b w"
    by (intro retry_final) simp
  show ?case
    unfolding run
    using "0.prems" \<open>\<not> k < MAX_RETRIES\<close>
    by (intro exI[of _ 1])
       (simp add: calls_queryDevices slept_queryDevices fst_queryDevices)
next
  case (Suc d)
  let ?r0 = "classify h (outcome (replies env (calls w)))"
  let ?w1 = "snd (queryDevices h env b w)"
  have k: "k < MAX_RETRIES" using Suc.hyps(2) by simp
  show ?case
  proof (cases "retryable_failure ?r0")
    case False
    then have run: "queryDevicesWithRetry h env b k w = queryDevices h env b w"
      by (intro retry_final) simp
    show ?thesis
      unfolding run
      using k False
      by (intro exI[of _ 1])
         (simp add: calls_queryDevices slept_queryDevices fst_queryDevices)
  next
    case True
    let ?w' = "sleep env (RETRY_DELAY_MS * int k) ?w1"
    have run: "queryDevicesWithRetry h env b k w = queryDevicesWithRetry h env b (k + 1) ?w'"
      by (rule retry_next[OF True k])
    have cw: "calls ?w' = calls w + 1"
      by (simp add: calls_sleep calls_queryDevices)
    have sw: "slept_delays (trace ?w') = slept_delays (trace w) @ [RETRY_DELAY_MS * int k]"
      by (simp add: slept_sleep slept_queryDevices)
    have "d = MAX_RETRIES - (k + 1)" "k + 1 \<le> MAX_RETRIES"
      using Suc.hyps(2) by simp_all
    from Suc.hyps(1)[OF this, of ?w'] obtain n where n:
      "1 \<le> n" "k + 1 + n \<le> MAX_RETRIES + 1"
      "calls (snd (queryDevicesWithRetry h env b (k + 1) ?w')) = calls ?w' + n"
      "fst (queryDevicesWithRetry h env b (k + 1) ?w')
         = classify h (outcome (replies env (calls ?w' + (n - 1))))"
      "slept_delays (trace (snd (queryDevicesWithRetry h env b (k + 1) ?w')))
         = slept_delays (trace ?w') @ map (\<lambda>j. RETRY_DELAY_MS * int j) [k + 1..<k + 1 + (n - 1)]"
      "\<forall>j < n - 1. retryable_failure (classify h (outcome (replies env (calls ?w' + j))))"
      "k + 1 + n \<le> MAX_RETRIES \<longrightarrow>
         \<not> retryable_failure (fst (queryDevicesWithRetry h env b (k + 1) ?w'))"
      by blast
    have up: "[k..<k + n] = k # [k + 1..<k + 1 + (n - 1)]"
      using n(1) by (simp add: upt_conv_Cons)
    have all: "\<forall>j < n. retryable_failure (classify h (outcome (replies env (calls w + j))))"
    proof (intro allI impI)
      fix j assume j: "j < n"
      show "retryable_failure (classify h (outcome (replies env (calls w + j))))"
      proof (cases j)
        case 0
        with True show ?thesis by simp
      next
        case (Suc i)
        with j have "i < n - 1" by simp
        with n(6) have "retryable_failure (classify h (outcome (replies env (calls ?w' + i))))"
          by blast
        with Suc cw show ?thesis by simp
      qed
    qed
    have c: "calls (snd (queryDevicesWithRetry h env b (k + 1) ?w')) = calls w + (n + 1)"
      using n(3) cw by simp
    have f: "fst (queryDevicesWithRetry h env b (k + 1) ?w')
        = classify h (outcome (replies env (calls w + (n + 1 - 1))))"
      using n(4) n(1) cw by (simp add: add.commute add.left_commute)
    have sl: "slept_delays (trace (snd (queryDevicesWithRetry h env b (k + 1) ?w')))
        = slept_delays (trace w) @ map (\<lambda>j. RETRY_DELAY_MS * int j) [k..<k + (n + 1 - 1)]"
      using n(5) sw up by simp
    have bound: "1 \<le> n + 1" "k + (n + 1) \<le> MAX_RETRIES + 1"
      using n(2) by simp_all
    have last: "k + (n + 1) \<le> MAX_RETRIES \<longrightarrow>
        \<not> retryable_failure (fst (queryDevicesWithRetry h env b (k + 1) ?w'))"
      using n(7) by simp
    have all': "\<forall>j < n + 1 - 1. retryable_failure (classify h (outcome (replies env (calls w + j))))"
      using all by simp
    show ?thesis
      unfolding run
      by (rule exI[of _ "n + 1"]) (intro conjI; fact bound c f sl all' last)
  qed
qed

text \<open>
  Claim C5. Let attempt \<open>k\<close> of \<open>queryDevicesWithRetry\<close> send its request in the world \<open>w\<close>
  and let \<open>w1\<close> be the world when the request has settled. If it failed with a retryable
  error and \<open>k < 3\<close>, what follows is one sleep of \<open>2000 * k\<close> milliseconds and then attempt
  \<open>k + 1\<close>, which so starts at least \<open>2000 * k\<close> milliseconds after the failure. If it failed
  with an error that is not retryable, that error is returned and nothing more is sent or
  slept. If it succeeded, the result is returned at once. As a whole, a call that starts
  at attempt 1 sends \<open>n\<close> requests with \<open>1 \<le> n \<le> 3\<close>; it sleeps \<open>2000 * j\<close> milliseconds
  after attempt \<open>j\<close> for \<open>j < n\<close> and at no other time; every attempt but the last failed
  with a retryable error; it returns what the last attempt gave, which is a success or an
  error that is not retryable whenever \<open>n < 3\<close>.
\<close>

theorem queryDevicesWithRetry_attempt:
  assumes "queryDevices h env snList w = (r, w1)"
  shows "(\<forall>err. r = Inl err \<and> retryable err \<and> k < MAX_RETRIES \<longrightarrow>
            queryDevicesWithRetry h env snList k w
              = queryDevicesWithRetry h env snList (k + 1) (sleep env (2000 * int k) w1)
            \<and> trace (sleep env (2000 * int k) w1)
              = trace w @ [Sent (clock w) (build_request h (clock w) snList), Slept (2000 * int k)]
            \<and> calls (sleep env (2000 * int k) w1) = calls w + 1
            \<and> clock w1 + 2000 * int k \<le> clock (sleep env (2000 * int k) w1))
       \<and> (\<forall>err. r = Inl err \<and> \<not> retryable err \<longrightarrow>
            queryDevicesWithRetry h env snList k w = (Inl err, w1)
            \<and> trace w1 = trace w @ [Sent (clock w) (build_request h (clock w) snList)]
            \<and> calls w1 = calls w + 1)
       \<and> (\<forall>v. r = Inr v \<longrightarrow>
            queryDevicesWithRetry h env snList k w = (Inr v, w1)
            \<and> trace w1 = trace w @ [Sent (clock w) (build_request h (clock w) snList)]
            \<and> calls w1 = calls w + 1)
       \<and> MAX_RETRIES = 3
       \<and> (\<exists>n. 1 \<le> n \<and> n \<le> 3
            \<and> calls (snd (queryDevicesWithRetry h env snList 1 w)) = calls w + n
            \<and> fst (queryDevicesWithRetry h env snList 1 w)
                = classify h (outcome (replies env (calls w + (n - 1))))
            \<and> slept_delays (trace (snd (queryDevicesWithRetry h env snList 1 w)))
                = slept_delays (trace w) @ map (\<lambda>j. 2000 * int j) [1..<n]
            \<and> (\<forall>j < n - 1. retryable_failure (classify h (outcome (replies env (calls w + j)))))
            \<and> (n < 3 \<longrightarrow> \<not> retryable_failure (fst (queryDevicesWithRetry h env snList 1 w))))"
proof -
  have tr: "trace w1 = trace w @ [Sent (clock w) (build_request h (clock w) snList)]"
    using queryDevices_trace[of h env snList w] assms by simp
  have cl: "calls w1 = calls w + 1"
    using assms by (auto simp: queryDevices_def Let_def)
  have retry: "\<forall>err. r = Inl err \<and> retryable err \<and> k < MAX_RETRIES \<longrightarrow>
            queryDevicesWithRetry h env snList k w
              = queryDevicesWithRetry h env snList (k + 1) (sleep env (2000 * int k) w1)
            \<and> trace (sleep env (2000 * int k) w1)
              = trace w @ [Sent (clock w) (build_request h (clock w) snList), Slept (2000 * int k)]
            \<and> calls (sleep env (2000 * int k) w1) = calls w + 1
            \<and> clock w1 + 2000 * int k \<le> clock (sleep env (2000 * int k) w1)"
  proof (intro allI impI, elim conjE)
    fix err
    assume a: "r = Inl err" "retryable err" "k < MAX_RETRIES"
    have "queryDevicesWithRetry h env snList k w
        = queryDevicesWithRetry h env snList (k + 1) (sleep env (2000 * int k) w1)"
      using retry_again[of h env snList w err w1 k] a assms by (simp add: RETRY_DELAY_MS_def)
    moreover have "trace (sleep env (2000 * int k) w1)
        = trace w @ [Sent (clock w) (build_request h (clock w) snList), Slept (2000 * int k)]"
      using tr by (simp add: sleep_def)
    moreover have "calls (sleep env (2000 * int k) w1) = calls w + 1"
      using cl by (simp add: sleep_def)
    ultimately show "queryDevicesWithRetry h env snList k w
              = queryDevicesWithRetry h env snList (k + 1) (sleep env (2000 * int k) w1)
            \<and> trace (sleep env (2000 * int k) w1)
              = trace w @ [Sent (clock w) (build_request h (clock w) snList), Slept (2000 * int k)]
            \<and> calls (sleep env (2000 * int k) w1) = calls w + 1
            \<and> clock w1 + 2000 * int k \<le> clock (sleep env (2000 * int k) w1)"
      using sleep_clock[of w1 "2000 * int k" env] by simp
  qed
  have stop: "\<forall>err. r = Inl err \<and> \<not> retryable err \<longrightarrow>
            queryDevicesWithRetry h env snList k w = (Inl err, w1)
            \<and> trace w1 = trace w @ [Sent (clock w) (build_request h (clock w) snList)]
            \<and> calls w1 = calls w + 1"
    using retry_stop[of h env snList w _ w1 k] assms tr cl by simp
  have ok: "\<forall>v. r = Inr v \<longrightarrow>
            queryDevicesWithRetry h env snList k w = (Inr v, w1)
            \<and> trace w1 = trace w @ [Sent (clock w) (build_request h (clock w) snList)]
            \<and> calls w1 = calls w + 1"
    using retry_ok[of h env snList w _ w1 k] assms tr cl by simp
  have mr: "MAX_RETRIES = 3"
    by (simp add: MAX_RETRIES_def)
  have whole: "\<exists>n. 1 \<le> n \<and> n \<le> 3
            \<and> calls (snd (queryDevicesWithRetry h env snList 1 w)) = calls w + n
            \<and> fst (queryDevicesWithRetry h env snList 1 w)
                = classify h (outcome (replies env (calls w + (n - 1))))
            \<and> slept_delays (trace (snd (queryDevicesWithRetry h env snList 1 w)))
                = slept_delays (trace w) @ map (\<lambda>j. 2000 * int j) [1..<n]
            \<and> (\<forall>j < n - 1. retryable_failure (classify h (outcome (replies env (calls w + j)))))
            \<and> (n < 3 \<longrightarrow> \<not> retryable_failure (fst (queryDevicesWithRetry h env snList 1 w)))"
  proof -
    have "1 \<le> MAX_RETRIES"
      by (simp add: MAX_RETRIES_def)
    from retry_run_shape[OF this, of h env snList w] obtain n where n:
      "1 \<le> n" "1 + n \<le> MAX_RETRIES + 1"
      "calls (snd (queryDevicesWithRetry h env snList 1 w)) = calls w + n"
      "fst (queryDevicesWithRetry h env snList 1 w)
         = classify h (outcome (replies env (calls w + (n - 1))))"
      "slept_delays (trace (snd (queryDevicesWithRetry h env snList 1 w)))
         = slept_delays (trace w) @ map (\<lambda>j. RETRY_DELAY_MS * int j) [1..<1 + (n - 1)]"
      "\<forall>j < n - 1. retryable_failure (classify h (outcome (replies env (calls w + j))))"
      "1 + n \<le> MAX_RETRIES \<longrightarrow>
         \<not> retryable_failure (fst (queryDevicesWithRetry h env snList 1 w))"
      by blast
    have b: "n \<le> 3" using n(2) by (simp add: MAX_RETRIES_def)
    have s: "slept_delays (trace (snd (queryDevicesWithRetry h env snList 1 w)))
         = slept_delays (trace w) @ map (\<lambda>j. 2000 * int j) [1..<n]"
      using n(5) n(1) by (simp add: RETRY_DELAY_MS_def)
    have l: "n < 3 \<longrightarrow> \<not> retryable_failure (fst (queryDevicesWithRetry h env snList 1 w))"
      using n(7) by (simp add: MAX_RETRIES_def)
    show ?thesis
      by (rule exI[of _ n]) (intro conjI; fact n(1) b n(3) n(4) s n(6) l)
  qed
  show ?thesis
    by (intro conjI; fact retry stop ok mr whole)
qed

theorem queryDevicesWithRetry_attempt_witness:
  "fst (queryDevicesWithRetry example_host
          (example_env [Response 429 ''slow down'', Response 404 ''not found''])
          [''SN-000''] 1 example_world)
     = Inl (Rejection (StatusCode 404) ''not found'' False)
   \<and> fst (queryDevicesWithRetry example_host (example_env []) [''SN-000''] 1 example_world)
     = Inr (JObj [(''data'', JArr [JObj (example_device ''Online'')])])"
proof -
  let ?env = "example_env [Response 429 ''slow down'', Response 404 ''not found'']"
  let ?q0 = "queryDevices example_host ?env [''SN-000''] example_world"
  let ?w1 = "sleep ?env (2000 * int 1) (snd ?q0)"
  let ?q1 = "queryDevices example_host ?env [''SN-000''] ?w1"
  let ?q2 = "queryDevices example_host (example_env []) [''SN-000''] example_world"
  have f0: "fst ?q0 = Inl (Rejection (StatusCode 429) ''Rate limited'' True)"
    by code_simp
  have f1: "fst ?q1 = Inl (Rejection (StatusCode 404) ''not found'' False)"
    by code_simp
  have f2: "fst ?q2 = Inr (JObj [(''data'', JArr [JObj (example_device ''Online'')])])"
    by code_simp
  have q0: "?q0 = (Inl (Rejection (StatusCode 429) ''Rate limited'' True), snd ?q0)"
    using f0 by (simp add: prod_eq_iff)
  have q1: "?q1 = (Inl (Rejection (StatusCode 404) ''not found'' False), snd ?q1)"
    using f1 by (simp add: prod_eq_iff)
  have q2: "?q2 = (Inr (JObj [(''data'', JArr [JObj (example_device ''Online'')])]), snd ?q2)"
    using f2 by (simp add: prod_eq_iff)
  have e0: "queryDevicesWithRetry example_host ?env [''SN-000''] 1 example_world
      = queryDevicesWithRetry example_host ?env [''SN-000''] (1 + 1) ?w1"
    using queryDevicesWithRetry_attempt[OF q0, of 1] by simp
  have e1: "queryDevicesWithRetry example_host ?env [''SN-000''] (1 + 1) ?w1
      = (Inl (Rejection (StatusCode 404) ''not found'' False), snd ?q1)"
    using queryDevicesWithRetry_attempt[OF q1, of "1 + 1"] by simp
  have e2: "queryDevicesWithRetry example_host (example_env []) [''SN-000''] 1 example_world
      = (Inr (JObj [(''data'', JArr [JObj (example_device ''Online'')])]), snd ?q2)"
    using queryDevicesWithRetry_attempt[OF q2, of 1] by simp
  show ?thesis
    unfolding e0 e1 e2 by simp
qed

section \<open>The rate limiter under one caller\<close>

lemma enqueue_idle:
  assumes "idle L"
  shows "enqueue now fn L =
     (if 0 < gate_delay (minIntervalMs L) (lastRequestTime L) now
      then L\<lparr> isProcessing := True,
              pending := AwaitSleep fn now (gate_delay (minIntervalMs L) (lastRequestTime L) now) \<rparr>
      else L\<lparr> lastRequestTime := now, isProcessing := True, pending := AwaitRequest fn,
              admitted := admitted L @ [(now, fn)] \<rparr>)"
  using assms
  by (cases L)
     (simp add: idle_def enqueue_def processQueue_def loop_head_def admit_def gate_delay_def Let_def)

lemma event_loop_request:
  assumes "pending L = AwaitRequest fn" "queue L = []" "fn w = (r, w2)"
  shows "event_loop env L w settled
     = (settled @ [r], L\<lparr> isProcessing := False, pending := Idle \<rparr>, w2)"
proof -
  have "request_settled (clock w2) L = L\<lparr> isProcessing := False, pending := Idle \<rparr>"
    using assms by (simp add: request_settled_def loop_head_def)
  moreover have "event_loop env (L\<lparr> isProcessing := False, pending := Idle \<rparr>) w2 (settled @ [r])
      = (settled @ [r], L\<lparr> isProcessing := False, pending := Idle \<rparr>, w2)"
    by (subst event_loop.simps) simp
  ultimately show ?thesis
    using assms by (subst event_loop.simps) simp
qed

lemma event_loop_sleep:
  assumes "pending L = AwaitSleep fn start d" "queue L = []" "fn (sleep env d w) = (r, w2)"
  shows "event_loop env L w settled
     = (settled @ [r],
        L\<lparr> lastRequestTime := clock (sleep env d w), isProcessing := False, pending := Idle,
           admitted := admitted L @ [(clock (sleep env d w), fn)] \<rparr>, w2)"
proof -
  let ?w1 = "sleep env d w"
  let ?L1 = "admit (clock ?w1) fn L"
  have tf: "timer_fired (clock ?w1) L = ?L1"
    using assms by (simp add: timer_fired_def)
  have p1: "pending ?L1 = AwaitRequest fn" "queue ?L1 = []"
    using assms by (simp_all add: admit_def)
  have "event_loop env ?L1 ?w1 settled
      = (settled @ [r], ?L1\<lparr> isProcessing := False, pending := Idle \<rparr>, w2)"
    by (rule event_loop_request[OF p1 assms(3)])
  then show ?thesis
    using assms tf by (subst event_loop.simps) (simp add: admit_def Let_def)
qed

lemma await_enqueue_idle:
  assumes "idle L" "fn (gate env (minIntervalMs L) (lastRequestTime L) w) = (r, w2)"
  shows "await_enqueue env fn L w =
     Some (r,
           L\<lparr> lastRequestTime := clock (gate env (minIntervalMs L) (lastRequestTime L) w),
              admitted := admitted L
                @ [(clock (gate env (minIntervalMs L) (lastRequestTime L) w), fn)] \<rparr>,
           w2)"
proof (cases "0 < gate_delay (minIntervalMs L) (lastRequestTime L) (clock w)")
  case True
  let ?d = "gate_delay (minIntervalMs L) (lastRequestTime L) (clock w)"
  let ?L1 = "L\<lparr> isProcessing := True, pending := AwaitSleep fn (clock w) ?d \<rparr>"
  have g: "gate env (minIntervalMs L) (lastRequestTime L) w = sleep env ?d w"
    using True by (simp add: gate_def)
  have e: "enqueue (clock w) fn L = ?L1"
    using True assms(1) by (simp add: enqueue_idle)
  have p1: "pending ?L1 = AwaitSleep fn (clock w) ?d" "queue ?L1 = []"
    using assms(1) by (simp_all add: idle_def)
  have f1: "fn (sleep env ?d w) = (r, w2)"
    using assms(2) g by simp
  have "event_loop env ?L1 w [] =
      ([] @ [r],
       ?L1\<lparr> lastRequestTime := clock (sleep env ?d w), isProcessing := False, pending := Idle,
            admitted := admitted ?L1 @ [(clock (sleep env ?d w), fn)] \<rparr>, w2)"
    by (rule event_loop_sleep[OF p1 f1])
  then show ?thesis
    using assms(1) unfolding await_enqueue_def e g
    by (cases L) (simp add: idle_def)
next
  case False
  let ?L1 = "L\<lparr> lastRequestTime := clock w, isProcessing := True, pending := AwaitRequest fn,
              admitted := admitted L @ [(clock w, fn)] \<rparr>"
  have g: "gate env (minIntervalMs L) (lastRequestTime L) w = w"
    using False by (simp add: gate_def)
  have e: "enqueue (clock w) fn L = ?L1"
    using False assms(1) by (simp add: enqueue_idle)
  have p1: "pending ?L1 = AwaitRequest fn" "queue ?L1 = []"
    using assms(1) by (simp_all add: idle_def)
  have f1: "fn w = (r, w2)"
    using assms(2) g by simp
  have "event_loop env ?L1 w [] = ([] @ [r], ?L1\<lparr> isProcessing := False, pending := Idle \<rparr>, w2)"
    by (rule event_loop_request[OF p1 f1])
  then show ?thesis
    using assms(1) unfolding await_enqueue_def e g
    by (cases L) (simp add: idle_def)
qed

lemma idle_after_admission:
  "idle L \<Longrightarrow> idle (L\<lparr> lastRequestTime := t, admitted := a \<rparr>)"
  by (simp add: idle_def)

section \<open>The loop of main, item by item\<close>

lemma try_batch_idle:
  assumes "idle L"
    and "queryDevicesWithRetry h env b 1 (gate env (minIntervalMs L) (lastRequestTime L) w) = (r, w2)"
  shows "try_batch h env b L w =
     Some (response_data r,
           L\<lparr> lastRequestTime := clock (gate env (minIntervalMs L) (lastRequestTime L) w),
              admitted := admitted L
                @ [(clock (gate env (minIntervalMs L) (lastRequestTime L) w),
                    queryDevicesWithRetry h env b 1)] \<rparr>,
           w2)"
  unfolding try_batch_def
    await_enqueue_idle[where fn = "queryDevicesWithRetry h env b 1" and env = env, OF assms]
  by simp

lemma main_loop_run:
  assumes "idle (rateLimiter st)" "i \<le> length batches"
  shows "main_loop h env batches i st =
     (let L = rateLimiter st;
          xs = executions h env (minIntervalMs L) (lastRequestTime L) (drop i batches) (world st)
      in Some (st\<lparr> results := results st @ successes (map outcome_of xs),
                    errors := errors st @ failures i (drop i batches) (map outcome_of xs),
                    rateLimiter := L\<lparr> lastRequestTime := last_admission (lastRequestTime L) xs,
                                      admitted := admitted L
                                        @ admissions h env (drop i batches) xs \<rparr>,
                    world := last_world (world st) xs \<rparr>))"
  using assms
proof (induction "length batches - i" arbitrary: i st)
  case 0
  then have "drop i batches = []" "\<not> i < length batches" by simp_all
  then show ?case
    by (subst main_loop.simps) (simp add: Let_def)
next
  case (Suc n)
  then have lt: "i < length batches" by simp
  let ?L = "rateLimiter st"
  let ?b = "batches ! i"
  let ?w1 = "gate env (minIntervalMs ?L) (lastRequestTime ?L) (world st)"
  obtain r w2 where q: "queryDevicesWithRetry h env ?b 1 ?w1 = (r, w2)"
    by (cases "queryDevicesWithRetry h env ?b 1 ?w1") auto
  let ?L' = "?L\<lparr> lastRequestTime := clock ?w1,
                 admitted := admitted ?L @ [(clock ?w1, queryDevicesWithRetry h env ?b 1)] \<rparr>"
  have tb: "try_batch h env ?b ?L (world st) = Some (response_data r, ?L', w2)"
    by (rule try_batch_idle[OF Suc.prems(1) q])
  have dr: "drop i batches = ?b # drop (i + 1) batches"
    using lt by (simp add: Cons_nth_drop_Suc)
  have idle': "idle ?L'"
    using Suc.prems(1) by (simp add: idle_def)
  have n: "n = length batches - (i + 1)" "i + 1 \<le> length batches"
    using Suc.hyps(2) lt by simp_all
  show ?case
  proof (cases "response_data r")
    case (Inr d)
    let ?st' = "st\<lparr> results := (if truthy d then results st @ [d] else results st),
                   rateLimiter := ?L', world := w2 \<rparr>"
    have step: "main_loop h env batches i st = main_loop h env batches (i + 1) ?st'"
      using lt tb Inr by (subst main_loop.simps) (simp add: Let_def)
    have "idle (rateLimiter ?st')" using idle' by simp
    from Suc.hyps(1)[OF n(1) this n(2)] step q Inr show ?thesis
      by (simp add: dr Let_def outcome_of_def)
  next
    case (Inl err)
    let ?st' = "st\<lparr> errors := errors st
                     @ [\<lparr> batch = i + 1, devices = ?b, error = message_or_error err \<rparr>],
                   rateLimiter := ?L', world := w2 \<rparr>"
    have step: "main_loop h env batches i st = main_loop h env batches (i + 1) ?st'"
      using lt tb Inl by (subst main_loop.simps) (simp add: Let_def)
    have "idle (rateLimiter ?st')" using idle' by simp
    from Suc.hyps(1)[OF n(1) this n(2)] step q Inl show ?thesis
      by (simp add: dr Let_def outcome_of_def)
  qed
qed
lemma length_executions: "length (executions h env m t bs w) = length bs"
  by (induction bs arbitrary: t w) (simp_all add: Let_def split: prod.splits)

lemma admissions_tasks:
  "length xs = length bs \<Longrightarrow>
   map snd (admissions h env bs xs) = map (\<lambda>b. queryDevicesWithRetry h env b 1) bs"
  by (induction bs xs rule: list_induct2') simp_all

lemma admissions_times:
  "length xs = length bs \<Longrightarrow> map fst (admissions h env bs xs) = map (\<lambda>x. clock (fst x)) xs"
  by (induction bs xs rule: list_induct2') simp_all

lemma subseq_successes: "subseq (map Inr (successes rs)) rs"
  by (induction rs rule: successes.induct) (auto intro: subseq_Cons2 list_emb_Cons)

lemma failures_batch_bounds:
  "f \<in> set (failures i bs rs) \<Longrightarrow> i < batch f"
  by (induction i bs rs rule: failures.induct) auto

lemma failures_sorted: "sorted_wrt (<) (map batch (failures i bs rs))"
  by (induction i bs rs rule: failures.induct) (auto dest: failures_batch_bounds)

lemma failures_origin:
  "f \<in> set (failures i bs rs) \<Longrightarrow> length rs = length bs \<Longrightarrow>
   \<exists>k < length bs. batch f = i + k + 1 \<and> devices f = bs ! k
      \<and> (\<exists>err. rs ! k = Inl err \<and> error f = message_or_error err)"
proof (induction i bs rs rule: failures.induct)
  case (1 i b bs err rs)
  show ?case
  proof (cases "f = \<lparr> batch = i + 1, devices = b, error = message_or_error err \<rparr>")
    case True
    then show ?thesis by (intro exI[of _ 0]) simp
  next
    case False
    with "1.prems" have "f \<in> set (failures (i + 1) bs rs)" "length rs = length bs" by simp_all
    from "1.IH"[OF this] obtain k where "k < length bs" "batch f = i + 1 + k + 1"
      "devices f = bs ! k" "\<exists>err. rs ! k = Inl err \<and> error f = message_or_error err"
      by blast
    then show ?thesis by (intro exI[of _ "Suc k"]) simp
  qed
next
  case (2 i b bs d rs)
  then have "f \<in> set (failures (i + 1) bs rs)" "length rs = length bs" by simp_all
  from "2.IH"[OF this] obtain k where "k < length bs" "batch f = i + 1 + k + 1"
    "devices f = bs ! k" "\<exists>err. rs ! k = Inl err \<and> error f = message_or_error err"
    by blast
  then show ?case by (intro exI[of _ "Suc k"]) simp
qed simp_all

lemma failures_member:
  "k < length bs \<Longrightarrow> length rs = length bs \<Longrightarrow> rs ! k = Inl err \<Longrightarrow>
   \<lparr> batch = i + k + 1, devices = bs ! k, error = message_or_error err \<rparr> \<in> set (failures i bs rs)"
proof (induction i bs rs arbitrary: k rule: failures.induct)
  case (1 i b bs e rs)
  then show ?case by (cases k) auto
next
  case (2 i b bs d rs)
  then show ?case by (cases k) auto
qed simp_all

lemma logged_count:
  "length rs = length bs \<Longrightarrow>
   length (successes rs) + length (failures i bs rs) = length (filter logged rs)"
  by (induction i bs rs rule: failures.induct) auto

text \<open>
  Claim C3, as the code has it. From an idle rate limiter the loop of \<open>main\<close> ends, for
  every list of batches and whatever the network answers. Each batch is admitted once, in
  the order of the list. The values appended to \<open>results\<close> are the truthy \<open>response.data\<close>
  of the outcomes, in their order; the records appended to \<open>errors\<close> are those of the
  outcomes that were caught, with growing batch numbers, each with its batch; an outcome
  with a \<open>response.data\<close> that is not truthy is appended to neither.
\<close>

theorem main_loop_logs:
  assumes "idle (rateLimiter st)"
  shows "\<exists>st' xs. main_loop h env batches 0 st = Some st'
     \<and> xs = executions h env (minIntervalMs (rateLimiter st)) (lastRequestTime (rateLimiter st))
              batches (world st)
     \<and> length xs = length batches
     \<and> admitted (rateLimiter st') = admitted (rateLimiter st) @ admissions h env batches xs
     \<and> map snd (admissions h env batches xs) = map (\<lambda>b. queryDevicesWithRetry h env b 1) batches
     \<and> results st' = results st @ successes (map outcome_of xs)
     \<and> errors st' = errors st @ failures 0 batches (map outcome_of xs)
     \<and> subseq (map Inr (successes (map outcome_of xs))) (map outcome_of xs)
     \<and> sorted_wrt (<) (map batch (failures 0 batches (map outcome_of xs)))
     \<and> (\<forall>f \<in> set (failures 0 batches (map outcome_of xs)).
           \<exists>k < length batches. batch f = k + 1 \<and> devices f = batches ! k
              \<and> (\<exists>err. outcome_of (xs ! k) = Inl err \<and> error f = message_or_error err))
     \<and> length (successes (map outcome_of xs)) + length (failures 0 batches (map outcome_of xs))
         = length (filter logged (map outcome_of xs))"
proof -
  let ?L = "rateLimiter st"
  let ?xs = "executions h env (minIntervalMs ?L) (lastRequestTime ?L) batches (world st)"
  let ?rs = "map outcome_of ?xs"
  let ?st' = "st\<lparr> results := results st @ successes ?rs,
                 errors := errors st @ failures 0 batches ?rs,
                 rateLimiter := ?L\<lparr> lastRequestTime := last_admission (lastRequestTime ?L) ?xs,
                                   admitted := admitted ?L @ admissions h env batches ?xs \<rparr>,
                 world := last_world (world st) ?xs \<rparr>"
  have run: "main_loop h env batches 0 st = Some ?st'"
    using main_loop_run[OF assms, of 0 batches h env] by (simp add: Let_def)
  have len: "length ?xs = length batches"
    by (rule length_executions)
  then have lrs: "length ?rs = length batches" by simp
  have adm: "map snd (admissions h env batches ?xs)
      = map (\<lambda>b. queryDevicesWithRetry h env b 1) batches"
    by (rule admissions_tasks[OF len])
  have origin: "\<forall>f \<in> set (failures 0 batches ?rs).
      \<exists>k < length batches. batch f = k + 1 \<and> devices f = batches ! k
         \<and> (\<exists>err. outcome_of (?xs ! k) = Inl err \<and> error f = message_or_error err)"
  proof
    fix f assume "f \<in> set (failures 0 batches ?rs)"
    from failures_origin[OF this lrs] len
    show "\<exists>k < length batches. batch f = k + 1 \<and> devices f = batches ! k
         \<and> (\<exists>err. outcome_of (?xs ! k) = Inl err \<and> error f = message_or_error err)"
      by auto
  qed
  have cnt: "length (successes ?rs) + length (failures 0 batches ?rs)
      = length (filter logged ?rs)"
    by (rule logged_count[OF lrs])
  have r: "results ?st' = results st @ successes ?rs"
    "errors ?st' = errors st @ failures 0 batches ?rs"
    "admitted (rateLimiter ?st') = admitted ?L @ admissions h env batches ?xs"
    by simp_all
  show ?thesis
    apply (rule exI[of _ ?st'])
    apply (rule exI[of _ ?xs])
    apply (intro conjI)
              apply (rule run)
             apply (rule refl)
            apply (rule len)
           apply (rule r(3))
          apply (rule adm)
         apply (rule r(1))
        apply (rule r(2))
       apply (rule subseq_successes)
      apply (rule failures_sorted)
     apply (rule origin)
    apply (rule cnt)
    done
qed
lemma idle_example: "idle (rateLimiter example_state)"
  by (simp add: example_state_def new_RateLimiter_def idle_def)

theorem main_loop_logs_witness:
  "map_option (\<lambda>st. (results st, errors st))
     (main_loop example_host
        (example_env [Response 200 ''{}'', Response 500 ''busy'', Response 500 ''busy'',
                      Response 500 ''busy''])
        [[''SN-000''], [''SN-001''], [''SN-002'']] 0 example_state)
   = Some ([JArr [JObj (example_device ''Online'')]],
           [\<lparr> batch = 2, devices = [''SN-001''], error = Message ''busy'' \<rparr>])"
proof -
  let ?env = "example_env [Response 200 ''{}'', Response 500 ''busy'', Response 500 ''busy'',
                      Response 500 ''busy'']"
  let ?bs = "[[''SN-000''], [''SN-001''], [''SN-002'']]"
  have ex: "map outcome_of
      (executions example_host ?env (minIntervalMs (rateLimiter example_state))
         (lastRequestTime (rateLimiter example_state)) ?bs (world example_state))
      = [Inr JUndefined, Inl (Rejection (StatusCode 500) ''busy'' True),
         Inr (JArr [JObj (example_device ''Online'')])]"
    by code_simp
  from main_loop_logs[OF idle_example, of example_host ?env ?bs]
  obtain st' where
    "main_loop example_host ?env ?bs 0 example_state = Some st'"
    "results st' = results example_state @ successes
       (map outcome_of (executions example_host ?env (minIntervalMs (rateLimiter example_state))
         (lastRequestTime (rateLimiter example_state)) ?bs (world example_state)))"
    "errors st' = errors example_state @ failures 0 ?bs
       (map outcome_of (executions example_host ?env (minIntervalMs (rateLimiter example_state))
         (lastRequestTime (rateLimiter example_state)) ?bs (world example_state)))"
    by blast
  then show ?thesis
    unfolding ex by (simp add: example_state_def message_or_error_def)
qed

text \<open>
  Claim C3 as the specification states it fails on a response without \<open>data\<close>: one batch,
  answered with status 200 and the body \<open>{}\<close>, is appended to neither log.
\<close>

theorem outcome_in_neither_log:
  "map_option (\<lambda>st. (results st, errors st))
     (main_loop example_host (example_env [Response 200 ''{}'']) [[''SN-000'']] 0 example_state)
   = Some ([], [])"
  by code_simp

text \<open>
  Claim C1 on the code. Two batches, and a network that answers the first request with
  status 429 and every later one with status 200: three requests are sent, at the times
  on the right, and two admissions are granted, at the times on the left. The request of
  the retry, the second one, has no admission of its own, and the request of the second
  batch follows it after 25 milliseconds, with a rate limiter of 1100 milliseconds.
\<close>

theorem retry_without_admission:
  "map_option (\<lambda>st. (map fst (admitted (rateLimiter st)), sent_times (trace (world st))))
     (main_loop example_host (example_env [Response 429 ''slow down''])
        [[''SN-000''], [''SN-001'']] 0 example_state)
   = Some ([1700000000000, 1700000002053],
           [1700000000000, 1700000002028, 1700000002053])"
  by code_simp

lemma fails_at_once:
  assumes "classify h (outcome (replies env (calls w))) = Inl e1" "\<not> retryable e1"
  shows "queryDevicesWithRetry h env b 1 w = (Inl e1, snd (queryDevices h env b w))"
  using queryDevices_pair[of h env b w] assms by (intro retry_stop) simp_all

lemma fails_three_times:
  assumes "classify h (outcome (replies env (calls w))) = Inl e1" "retryable e1"
    and "classify h (outcome (replies env (calls w + 1))) = Inl e2" "retryable e2"
    and "classify h (outcome (replies env (calls w + 2))) = Inl e3"
  shows "fst (queryDevicesWithRetry h env b 1 w) = Inl e3
     \<and> calls (snd (queryDevicesWithRetry h env b 1 w)) = calls w + 3"
proof -
  let ?w1 = "snd (queryDevices h env b w)"
  let ?s1 = "sleep env (RETRY_DELAY_MS * int 1) ?w1"
  let ?w2 = "snd (queryDevices h env b ?s1)"
  let ?s2 = "sleep env (RETRY_DELAY_MS * int (1 + 1)) ?w2"
  let ?w3 = "snd (queryDevices h env b ?s2)"
  have c1: "calls ?s1 = calls w + 1"
    by (simp add: calls_sleep calls_queryDevices)
  have c2: "calls ?s2 = calls w + 2"
    by (simp add: calls_sleep calls_queryDevices c1)
  have q1: "queryDevices h env b w = (Inl e1, ?w1)"
    using queryDevices_pair[of h env b w] assms(1) by simp
  have q2: "queryDevices h env b ?s1 = (Inl e2, ?w2)"
    using queryDevices_pair[of h env b ?s1] assms(3) c1 by simp
  have q3: "queryDevices h env b ?s2 = (Inl e3, ?w3)"
    using queryDevices_pair[of h env b ?s2] assms(5) c2 by simp
  have "queryDevicesWithRetry h env b 1 w = queryDevicesWithRetry h env b (1 + 1) ?s1"
    by (rule retry_again[OF q1 assms(2)]) (simp add: MAX_RETRIES_def)
  also have "\<dots> = queryDevicesWithRetry h env b (1 + 1 + 1) ?s2"
    by (rule retry_again[OF q2 assms(4)]) (simp add: MAX_RETRIES_def)
  also have "\<dots> = (Inl e3, ?w3)"
    by (rule retry_stop[OF q3]) (simp add: MAX_RETRIES_def)
  finally have e: "queryDevicesWithRetry h env b 1 w = (Inl e3, ?w3)" .
  have c3: "calls ?w3 = calls w + 3"
    using c2 by (simp add: calls_queryDevices)
  show ?thesis
    unfolding e using c3 by simp
qed

lemma failure_is_recorded:
  assumes "idle (rateLimiter st)" "k < length batches"
    and "fst (snd (executions h env (minIntervalMs (rateLimiter st))
            (lastRequestTime (rateLimiter st)) batches (world st) ! k)) = Inl err"
  shows "\<exists>st'. main_loop h env batches 0 st = Some st'
     \<and> \<lparr> batch = k + 1, devices = batches ! k, error = message_or_error err \<rparr> \<in> set (errors st')"
proof -
  let ?L = "rateLimiter st"
  let ?xs = "executions h env (minIntervalMs ?L) (lastRequestTime ?L) batches (world st)"
  let ?rs = "map outcome_of ?xs"
  have len: "length ?rs = length batches"
    by (simp add: length_executions)
  have "?rs ! k = Inl err"
    using assms(2,3) by (simp add: length_executions outcome_of_def response_data_def)
  from failures_member[OF assms(2) len this, of 0]
  have "\<lparr> batch = k + 1, devices = batches ! k, error = message_or_error err \<rparr>
      \<in> set (failures 0 batches ?rs)"
    by simp
  then show ?thesis
    using main_loop_run[OF assms(1), of 0 batches h env] by (simp add: Let_def)
qed

text \<open>
  Claim C6, as the code has it. An error that is not retryable on the first attempt is
  returned as it is, after one request. When the first two attempts fail with retryable
  errors and the third fails, the error of the third is returned as it is, after three
  requests. When an item settles with an error, the loop of \<open>main\<close> ends with a record in
  \<open>errors\<close> that has the number of the batch, the batch and \<open>error.message || error\<close>:
  the message of the error when it is not empty, and then nothing else of the error;
  the error itself, with its code and its flag, when the message is empty.
\<close>

theorem last_failure_recorded:
  assumes "idle (rateLimiter st)"
  shows "(\<forall>e1. classify h (outcome (replies env (calls w))) = Inl e1 \<and> \<not> retryable e1 \<longrightarrow>
            queryDevicesWithRetry h env b 1 w = (Inl e1, snd (queryDevices h env b w)))
     \<and> (\<forall>e1 e2 e3.
            classify h (outcome (replies env (calls w))) = Inl e1 \<and> retryable e1
            \<and> classify h (outcome (replies env (calls w + 1))) = Inl e2 \<and> retryable e2
            \<and> classify h (outcome (replies env (calls w + 2))) = Inl e3 \<longrightarrow>
            fst (queryDevicesWithRetry h env b 1 w) = Inl e3
            \<and> calls (snd (queryDevicesWithRetry h env b 1 w)) = calls w + 3)
     \<and> (\<forall>k err. k < length batches
            \<and> fst (snd (executions h env (minIntervalMs (rateLimiter st))
                  (lastRequestTime (rateLimiter st)) batches (world st) ! k)) = Inl err \<longrightarrow>
            (\<exists>st'. main_loop h env batches 0 st = Some st'
               \<and> \<lparr> batch = k + 1, devices = batches ! k, error = message_or_error err \<rparr>
                   \<in> set (errors st')))
     \<and> (\<forall>err. recorded_message (message_or_error err) = message err
            \<and> (message err \<noteq> [] \<longrightarrow> message_or_error err = Message (message err))
            \<and> (message err = [] \<longrightarrow> message_or_error err = Whole err))"
proof (intro conjI allI impI)
  fix e1
  assume "classify h (outcome (replies env (calls w))) = Inl e1 \<and> \<not> retryable e1"
  then show "queryDevicesWithRetry h env b 1 w = (Inl e1, snd (queryDevices h env b w))"
    by (intro fails_at_once) simp_all
next
  fix e1 e2 e3
  assume a: "classify h (outcome (replies env (calls w))) = Inl e1 \<and> retryable e1
            \<and> classify h (outcome (replies env (calls w + 1))) = Inl e2 \<and> retryable e2
            \<and> classify h (outcome (replies env (calls w + 2))) = Inl e3"
  then have r: "fst (queryDevicesWithRetry h env b 1 w) = Inl e3
     \<and> calls (snd (queryDevicesWithRetry h env b 1 w)) = calls w + 3"
    by (intro fails_three_times[where ?e1.0 = e1 and ?e2.0 = e2]) simp_all
  from r show "fst (queryDevicesWithRetry h env b 1 w) = Inl e3" ..
  from r show "calls (snd (queryDevicesWithRetry h env b 1 w)) = calls w + 3" ..
next
  fix k err
  assume "k < length batches
            \<and> fst (snd (executions h env (minIntervalMs (rateLimiter st))
                  (lastRequestTime (rateLimiter st)) batches (world st) ! k)) = Inl err"
  then show "\<exists>st'. main_loop h env batches 0 st = Some st'
               \<and> \<lparr> batch = k + 1, devices = batches ! k, error = message_or_error err \<rparr>
                   \<in> set (errors st')"
    using failure_is_recorded[OF assms] by blast
next
  fix err
  show "recorded_message (message_or_error err) = message err"
    by (simp add: message_or_error_def)
next
  fix err
  assume "message err \<noteq> []"
  then show "message_or_error err = Message (message err)"
    by (simp add: message_or_error_def)
next
  fix err
  assume "message err = []"
  then show "message_or_error err = Whole err"
    by (simp add: message_or_error_def)
qed

text \<open>
  Claim C6 as the specification states it fails on the kind: a batch that fails three
  times with status 500 and a batch that fails once with status 404, both with the body
  \<open>busy\<close>, leave the same record, which holds the message and no code.
\<close>

theorem failure_record_without_code:
  "map_option errors
     (main_loop example_host
        (example_env [Response 500 ''busy'', Response 500 ''busy'', Response 500 ''busy''])
        [[''SN-000'']] 0 example_state)
     = Some [\<lparr> batch = 1, devices = [''SN-000''], error = Message ''busy'' \<rparr>]
   \<and> map_option errors
     (main_loop example_host (example_env [Response 404 ''busy'']) [[''SN-000'']] 0 example_state)
     = Some [\<lparr> batch = 1, devices = [''SN-000''], error = Message ''busy'' \<rparr>]"
  by code_simp
theorem last_failure_recorded_witness:
  "fst (queryDevicesWithRetry example_host
          (example_env [Response 500 ''busy'', Response 500 ''busy'', Response 500 ''busy''])
          [''SN-000''] 1 example_world)
     = Inl (Rejection (StatusCode 500) ''busy'' True)
   \<and> calls (snd (queryDevicesWithRetry example_host
          (example_env [Response 500 ''busy'', Response 500 ''busy'', Response 500 ''busy''])
          [''SN-000''] 1 example_world)) = 3
   \<and> (\<exists>st'. main_loop example_host
          (example_env [Response 500 ''busy'', Response 500 ''busy'', Response 500 ''busy''])
          [[''SN-000'']] 0 example_state = Some st'
        \<and> \<lparr> batch = 1, devices = [''SN-000''], error = Message ''busy'' \<rparr> \<in> set (errors st'))"
proof -
  let ?env = "example_env [Response 500 ''busy'', Response 500 ''busy'', Response 500 ''busy'']"
  let ?e = "Rejection (StatusCode 500) ''busy'' True"
  have c: "classify example_host (outcome (replies ?env (calls example_world))) = Inl ?e"
    "classify example_host (outcome (replies ?env (calls example_world + 1))) = Inl ?e"
    "classify example_host (outcome (replies ?env (calls example_world + 2))) = Inl ?e"
    by code_simp+
  have r: "retryable ?e" by simp
  have x: "fst (snd (executions example_host ?env (minIntervalMs (rateLimiter example_state))
      (lastRequestTime (rateLimiter example_state)) [[''SN-000'']] (world example_state) ! 0))
      = Inl ?e"
    by code_simp
  have z: "calls example_world = 0"
    by (simp add: example_world_def)
  note T = last_failure_recorded[OF idle_example, of example_host ?env example_world
      "[''SN-000'']" "[[''SN-000'']]"]
  from T c r have "fst (queryDevicesWithRetry example_host ?env [''SN-000''] 1 example_world) = Inl ?e
     \<and> calls (snd (queryDevicesWithRetry example_host ?env [''SN-000''] 1 example_world))
         = calls example_world + 3"
    by blast
  moreover from T x have "\<exists>st'. main_loop example_host ?env [[''SN-000'']] 0 example_state = Some st'
     \<and> \<lparr> batch = 0 + 1, devices = [[''SN-000'']] ! 0, error = message_or_error ?e \<rparr>
         \<in> set (errors st')"
    by blast
  ultimately show ?thesis
    by (simp add: z message_or_error_def)
qed

section \<open>Spacing of admissions\<close>

lemma spaced_snoc:
  "spaced m (ts @ [t']) = (spaced m ts \<and> (ts \<noteq> [] \<longrightarrow> last ts + m \<le> t'))"
  by (induction m ts rule: spaced.induct) auto

lemma rl_inv_new: "rl_inv m t (new_RateLimiter m)"
  by (simp add: rl_inv_def new_RateLimiter_def)

lemma rl_inv_admit:
  assumes "rl_inv m t L" "t \<le> now" "lastRequestTime L + m \<le> now" "pending L \<noteq> Idle"
  shows "rl_inv m now (admit now e (L\<lparr> queue := q \<rparr>))"
  using assms
  by (auto simp: rl_inv_def admit_def spaced_snoc last_map split: await.splits)

lemma rl_inv_loop_head:
  assumes "rl_inv m t L" "t \<le> now" "isProcessing L"
  shows "rl_inv m now (loop_head now L)"
proof (cases "queue L")
  case Nil
  with assms show ?thesis
    by (auto simp: rl_inv_def loop_head_def split: await.splits)
next
  case (Cons e rest)
  have m: "minIntervalMs L = m" and p: "pending L \<noteq> Idle"
    using assms by (simp_all add: rl_inv_def)
  show ?thesis
  proof (cases "0 < m - (now - lastRequestTime L)")
    case True
    then have "loop_head now L
        = L\<lparr> queue := rest, pending := AwaitSleep e now (m - (now - lastRequestTime L)) \<rparr>"
      using Cons m by (simp add: loop_head_def Let_def)
    with assms True show ?thesis
      by (auto simp: rl_inv_def split: await.splits)
  next
    case False
    then have lh: "loop_head now L = admit now e (L\<lparr> queue := rest \<rparr>)"
      using Cons m by (simp add: loop_head_def Let_def)
    have "lastRequestTime L + m \<le> now"
      using False by simp
    from rl_inv_admit[OF assms(1) assms(2) this p] lh show ?thesis
      by simp
  qed
qed

lemma rl_inv_time: "rl_inv m t L \<Longrightarrow> t \<le> now \<Longrightarrow> rl_inv m now L"
  by (auto simp: rl_inv_def split: await.splits)

lemma rl_inv_processQueue:
  assumes "rl_inv m t L" "t \<le> now"
  shows "rl_inv m now (processQueue now L)"
proof (cases "isProcessing L \<or> queue L = []")
  case True
  then have "processQueue now L = L"
    by (simp add: processQueue_def)
  with rl_inv_time[OF assms] show ?thesis by simp
next
  case False
  let ?L2 = "L\<lparr> isProcessing := True \<rparr>"
  have idle: "pending L = Idle"
    using False assms(1) by (simp add: rl_inv_def)
  have st: "processQueue now L = loop_head now ?L2"
    using False by (simp add: processQueue_def)
  obtain e' rest where q: "queue ?L2 = e' # rest"
    using False by (cases "queue L") auto
  have m: "minIntervalMs L = m"
    using assms(1) by (simp add: rl_inv_def)
  show ?thesis
  proof (cases "0 < m - (now - lastRequestTime L)")
    case True
    then have "loop_head now ?L2
        = ?L2\<lparr> queue := rest, pending := AwaitSleep e' now (m - (now - lastRequestTime L)) \<rparr>"
      using q m by (simp add: loop_head_def Let_def)
    with assms True st show ?thesis
      by (auto simp: rl_inv_def split: await.splits)
  next
    case F: False
    then have "loop_head now ?L2 = admit now e' (?L2\<lparr> queue := rest \<rparr>)"
      using q m by (simp add: loop_head_def Let_def)
    with assms F st idle show ?thesis
      by (auto simp: rl_inv_def admit_def spaced_snoc last_map split: await.splits)
  qed
qed

lemma rl_inv_step:
  assumes "rl_inv m t L" "t \<le> fst ev" "enabled L ev"
  shows "rl_inv m (fst ev) (step L ev)"
proof (cases ev)
  case (Pair now a)
  have tn: "t \<le> now" using assms(2) Pair by simp
  show ?thesis
  proof (cases a)
    case (Enqueue e)
    have "rl_inv m t (L\<lparr> queue := queue L @ [e] \<rparr>)"
      using assms(1) by (auto simp: rl_inv_def split: await.splits)
    from rl_inv_processQueue[OF this tn] show ?thesis
      using Pair Enqueue by (simp add: enqueue_def)
  next
    case ProcessQueue
    from rl_inv_processQueue[OF assms(1) tn] show ?thesis
      using Pair ProcessQueue by simp
  next
    case TimerFired
    with assms(3) Pair obtain e start d where
      p: "pending L = AwaitSleep e start d" and due: "start + d \<le> now"
      by (auto split: await.splits)
    have le: "lastRequestTime L + m \<le> now"
      using assms(1) p due by (simp add: rl_inv_def)
    have ni: "pending L \<noteq> Idle" using p by simp
    have "rl_inv m now (admit now e (L\<lparr> queue := queue L \<rparr>))"
      by (rule rl_inv_admit[OF assms(1) tn le ni])
    then show ?thesis
      using Pair TimerFired p by (simp add: timer_fired_def)
  next
    case RequestSettled
    with assms(3) Pair obtain e where p: "pending L = AwaitRequest e"
      by (auto split: await.splits)
    then have "isProcessing L"
      using assms(1) by (simp add: rl_inv_def)
    then have "rl_inv m now (loop_head now L)"
      using assms(1) tn by (intro rl_inv_loop_head[where t = t])
    then show ?thesis
      using Pair RequestSettled p by (simp add: request_settled_def)
  qed
qed

lemma rl_inv_run:
  "rl_inv m t L \<Longrightarrow> schedule t L evs \<Longrightarrow> \<exists>t'. rl_inv m t' (run L evs)"
proof (induction evs arbitrary: t L)
  case Nil
  then show ?case by (auto simp: run_def)
next
  case (Cons ev evs)
  then have "rl_inv m (fst ev) (step L ev)" "schedule (fst ev) (step L ev) evs"
    by (simp_all add: rl_inv_step)
  from Cons.IH[OF this] show ?case
    by (simp add: run_def)
qed

lemma first_enqueue:
  "m \<le> now \<Longrightarrow>
   enqueue now e (new_RateLimiter m)
     = \<lparr> minIntervalMs = m, lastRequestTime = now, queue = [], isProcessing = True,
         pending = AwaitRequest e, admitted = [(now, e)] \<rparr>"
  by (simp add: enqueue_def processQueue_def loop_head_def admit_def new_RateLimiter_def Let_def)

lemma first_inv_new: "first_inv m (new_RateLimiter m)"
  by (simp add: first_inv_def idle_def new_RateLimiter_def)

lemma first_inv_step:
  assumes "first_inv m L" "m \<le> fst ev" "enabled L ev"
  shows "first_inv m (step L ev)"
proof (cases ev)
  case (Pair now a)
  show ?thesis
  proof (cases a)
    case (Enqueue e)
    with assms Pair show ?thesis
      by (auto simp: first_inv_def idle_def enqueue_def processQueue_def loop_head_def
          admit_def Let_def split: list.splits)
  next
    case ProcessQueue
    with assms Pair show ?thesis
      by (auto simp: first_inv_def idle_def processQueue_def loop_head_def
          admit_def Let_def split: list.splits)
  next
    case TimerFired
    with assms Pair show ?thesis
      by (auto simp: first_inv_def idle_def timer_fired_def admit_def split: await.splits)
  next
    case RequestSettled
    with assms Pair show ?thesis
      by (auto simp: first_inv_def idle_def request_settled_def loop_head_def
          admit_def Let_def split: list.splits await.splits)
  qed
qed

lemma first_inv_run:
  "first_inv m L \<Longrightarrow> m \<le> t \<Longrightarrow> schedule t L evs \<Longrightarrow> first_inv m (run L evs)"
proof (induction evs arbitrary: t L)
  case Nil
  then show ?case by (simp add: run_def)
next
  case (Cons ev evs)
  then have "first_inv m (step L ev)" "m \<le> fst ev" "schedule (fst ev) (step L ev) evs"
    by (simp_all add: first_inv_step)
  from Cons.IH[OF this] show ?case
    by (simp add: run_def)
qed

text \<open>
  Claim C2. Start from a new rate limiter with interval \<open>m\<close> and let callers call
  \<open>enqueue\<close> and \<open>processQueue\<close>, timers fire and requests settle in any order the event
  loop allows, from a time \<open>t\<close> on. Then any two successive admissions are at least \<open>m\<close>
  apart, and \<open>lastRequestTime\<close> is the time of the latest admission. \<open>lastRequestTime\<close>
  starts at 0, the beginning of the clock: when \<open>m \<le> t\<close>, nothing waits as long as nothing
  has been admitted, and a first call of \<open>enqueue\<close> at a time \<open>now\<close> is admitted at \<open>now\<close>,
  without a sleep.
\<close>

theorem admissions_spaced:
  assumes "schedule t (new_RateLimiter m) evs"
  shows "spaced m (map fst (admitted (run (new_RateLimiter m) evs)))
     \<and> (admitted (run (new_RateLimiter m) evs) \<noteq> [] \<longrightarrow>
          lastRequestTime (run (new_RateLimiter m) evs)
            = fst (last (admitted (run (new_RateLimiter m) evs))))
     \<and> (m \<le> t \<longrightarrow>
          (admitted (run (new_RateLimiter m) evs) = [] \<longrightarrow> idle (run (new_RateLimiter m) evs))
          \<and> (\<forall>now e rest. evs = (now, Enqueue e) # rest \<longrightarrow>
                admitted (step (new_RateLimiter m) (now, Enqueue e)) = [(now, e)]
                \<and> pending (step (new_RateLimiter m) (now, Enqueue e)) = AwaitRequest e
                \<and> lastRequestTime (step (new_RateLimiter m) (now, Enqueue e)) = now))"
proof -
  from rl_inv_run[OF rl_inv_new assms]
  obtain t' where "rl_inv m t' (run (new_RateLimiter m) evs)" ..
  then have sp: "spaced m (map fst (admitted (run (new_RateLimiter m) evs)))"
    and la: "admitted (run (new_RateLimiter m) evs) \<noteq> [] \<longrightarrow>
       lastRequestTime (run (new_RateLimiter m) evs)
         = fst (last (admitted (run (new_RateLimiter m) evs)))"
    by (simp_all add: rl_inv_def)
  have fi: "admitted (run (new_RateLimiter m) evs) = [] \<longrightarrow> idle (run (new_RateLimiter m) evs)"
    if "m \<le> t"
    using first_inv_run[OF first_inv_new that assms] by (simp add: first_inv_def)
  have fe: "admitted (step (new_RateLimiter m) (now, Enqueue e)) = [(now, e)]
      \<and> pending (step (new_RateLimiter m) (now, Enqueue e)) = AwaitRequest e
      \<and> lastRequestTime (step (new_RateLimiter m) (now, Enqueue e)) = now"
    if "m \<le> t" "evs = (now, Enqueue e) # rest" for now e rest
  proof -
    from assms that have "m \<le> now" by simp
    then show ?thesis by (simp add: first_enqueue)
  qed
  from sp la fi fe show ?thesis
    by blast
qed

lemma example_schedule:
  "schedule 1700000000000 (new_RateLimiter 1100)
     [(1700000000000, Enqueue ''a''), (1700000000100, Enqueue ''b''),
      (1700000000300, RequestSettled), (1700000001105, TimerFired),
      (1700000001200, RequestSettled)]"
  by code_simp

theorem admissions_spaced_witness:
  "admitted (run (new_RateLimiter 1100)
     [(1700000000000, Enqueue ''a''), (1700000000100, Enqueue ''b''),
      (1700000000300, RequestSettled), (1700000001105, TimerFired),
      (1700000001200, RequestSettled)])
     = [(1700000000000, ''a''), (1700000001105, ''b'')]
   \<and> spaced 1100 [1700000000000, 1700000001105]
   \<and> lastRequestTime (run (new_RateLimiter 1100)
     [(1700000000000, Enqueue ''a''), (1700000000100, Enqueue ''b''),
      (1700000000300, RequestSettled), (1700000001105, TimerFired),
      (1700000001200, RequestSettled)]) = 1700000001105
   \<and> admitted (step (new_RateLimiter 1100) (1700000000000, Enqueue ''a''))
       = [(1700000000000, ''a'')]"
proof -
  let ?evs = "[(1700000000000, Enqueue ''a''), (1700000000100, Enqueue ''b''),
      (1700000000300, RequestSettled), (1700000001105, TimerFired),
      (1700000001200, RequestSettled)]"
  have a: "admitted (run (new_RateLimiter 1100) ?evs)
      = [(1700000000000, ''a''), (1700000001105, ''b'')]"
    by code_simp
  have s: "step (new_RateLimiter 1100) (1700000000000, Enqueue ''a'')
      = enqueue 1700000000000 ''a'' (new_RateLimiter 1100)"
    by simp
  from admissions_spaced[OF example_schedule]
  show ?thesis
    unfolding a s by (simp add: first_enqueue)
qed

lemma gate_clock: "t + m \<le> clock (gate env m t w)"
  by (auto simp: gate_def gate_delay_def sleep_def max_def split: if_splits)

lemma executions_spaced:
  "spaced m (t # map (\<lambda>x. clock (fst x)) (executions h env m t bs w))"
proof (induction bs arbitrary: t w)
  case Nil
  show ?case by simp
next
  case (Cons b bs)
  obtain r w2 where q: "queryDevicesWithRetry h env b 1 (gate env m t w) = (r, w2)"
    by (cases "queryDevicesWithRetry h env b 1 (gate env m t w)") auto
  from Cons.IH[of "clock (gate env m t w)" w2] gate_clock[of t m env w] q
  show ?case by (simp add: Let_def)
qed

lemma spaced_tail: "spaced m (t # ts) \<Longrightarrow> spaced m ts"
  by (cases ts) simp_all

text \<open>
  The admissions of a run of \<open>main\<close> are spaced too: its loop calls \<open>enqueue\<close> and waits for
  the result before it goes on.
\<close>

lemma main_loop_admissions_spaced:
  assumes "main_loop h env batches 0
      \<lparr> results = rs0, errors = es0, rateLimiter = new_RateLimiter m, world = w \<rparr> = Some st'"
  shows "spaced m (map fst (admitted (rateLimiter st')))"
proof -
  let ?st = "\<lparr> results = rs0, errors = es0, rateLimiter = new_RateLimiter m, world = w \<rparr>"
  let ?xs = "executions h env m 0 batches w"
  have i: "idle (rateLimiter ?st)"
    by (simp add: idle_def new_RateLimiter_def)
  have "admitted (rateLimiter st') = admissions h env batches ?xs"
    using main_loop_run[OF i, of 0 batches h env] assms
    by (auto simp: Let_def new_RateLimiter_def)
  then have "map fst (admitted (rateLimiter st')) = map (\<lambda>x. clock (fst x)) ?xs"
    by (simp add: admissions_times length_executions)
  with spaced_tail[OF executions_spaced[of m 0 h env batches w]] show ?thesis
    by simp
qed

text \<open>\<open>main\<close> returns, whatever the network answers: no failed batch stops it.\<close>

lemma main_returns: "\<exists>out. main h env w = Some out"
proof -
  from createBatches_loop_spec[of 10 "generateSerialNumbers 500" 0 "[]"]
  obtain bs where bs: "createBatches (generateSerialNumbers 500) BATCH_SIZE = Some bs"
    by (auto simp: createBatches_def BATCH_SIZE_def)
  let ?st = "\<lparr> results = [], errors = [], rateLimiter = new_RateLimiter 1100, world = w \<rparr>"
  have "idle (rateLimiter ?st)"
    by (simp add: idle_def new_RateLimiter_def)
  from main_loop_run[OF this, of 0 bs h env]
  obtain st' where "main_loop h env bs 0 ?st = Some st'"
    by (auto simp: Let_def)
  with bs show ?thesis
    by (simp add: main_def Let_def)
qed

end
